theory Spec2Isabelle
  imports Main "HOL-Library.Word" "HOL-Library.Code_Target_Nat"
begin

unbundle bit_operations_syntax

section \<open>ASSET: the explicit-state model checker of asset.cc\<close>

text \<open>
  The checker keeps all of its data in process-wide variables. The embedding collects
  them in one record that every operation takes and returns. Machine words of state
  data and the hash value are 32-bit words (\<open>unsigned\<close>). Node indices, edge counts
  and cursors are natural numbers; where the code computes an index or a size of the
  state data as a 32-bit product (\<open>fire_init\<close>, the \<open>resize\<close> calls), the embedding
  reduces it modulo \<open>2 ^ 32\<close>.
\<close>

type_synonym u32 = "32 word"

subsection \<open>Data\<close>

text \<open>\<open>struct node_type\<close>: one entry per stored state; entry 0 is the end mark.\<close>

record node_type =
  h_next :: nat
  prev :: nat
  e_cnt :: nat
  p_next :: nat
  ie_end :: nat

text \<open>What the program writes to standard output, as far as the checker decides it.\<close>

datatype out_event =
  Print_state "u32 list"
  | Print_error string "string option"
  | Print_line string
  | Print_states nat
  | Print_counts nat nat
  | Print_settings string nat

text \<open>
  The globals of asset.cc: \<open>err_msg\<close>; the statics of \<open>state_var\<close> (\<open>st_data\<close>,
  \<open>started\<close>, \<open>nr_words\<close>, \<open>tot_bits\<close>, \<open>state_nr\<close>); \<open>nr_trans\<close>; \<open>nodes\<close> and
  \<open>nr_edges\<close>; \<open>hash_tbl\<close> and \<open>hash_was_new\<close>; the static \<open>reported\<close> of
  \<open>report_error\<close>; \<open>bss_second\<close> and \<open>iedges\<close>; and the output stream.
\<close>

record checker =
  err_msg :: "string option"
  st_data :: "u32 list"
  started :: bool
  nr_words :: nat
  tot_bits :: nat
  state_nr :: nat
  nr_trans :: nat
  nodes :: "node_type list"
  nr_edges :: nat
  hash_tbl :: "nat \<Rightarrow> nat"
  hash_was_new :: bool
  reported :: bool
  bss_second :: bool
  iedges :: "nat list"
  out :: "out_event list"

text \<open>The values the globals have before \<open>main\<close> and before any declaration.\<close>

definition initial_checker :: checker where
  "initial_checker =
     \<lparr>err_msg = None, st_data = [], started = False, nr_words = 1, tot_bits = 0,
      state_nr = 0, nr_trans = 0, nodes = [], nr_edges = 0, hash_tbl = (\<lambda>_. 0),
      hash_was_new = False, reported = False, bss_second = False, iedges = [],
      out = []\<rparr>"

text \<open>
  Some operations of the program have no defined result in C++: an access to \<open>nodes[n]\<close>
  with \<open>n\<close> not below \<open>nodes.size()\<close>, a write to \<open>iedges[c]\<close> with \<open>c\<close> not below the
  size of the array, a shift of a 32-bit value by 32 bits. Where the program can reach
  one, the embedding stops with a fault that names the index (or the shift) and carries
  the globals as they are at that point. A call that does not return is \<open>None\<close>.
\<close>

datatype fault = Node_out_of_range nat | Edge_out_of_range nat | Shift_undefined nat

type_synonym 'a run = "((fault \<times> checker) + 'a) option"

subsection \<open>State variables\<close>

text \<open>
  A \<open>state_var\<close> handle: the word of the state where the variable lives, and the shift
  and mask that cut it out of that word.
\<close>

record state_var =
  sv_word :: nat
  sv_shift :: nat
  sv_mask :: u32

text \<open>
  The constructor \<open>state_var(nr_bits)\<close>. On either error it returns early and leaves the
  handle's fields unset: the embedding returns no handle then. \<open>sizeof(unsigned)*8\<close> is 32.
  The mask is \<open>((1u << nr_bits) - 1) << shift\<close>: for \<open>nr_bits = 32\<close>, and for a variable
  of no bits after a full word (\<open>shift = 32\<close>), the shift is by the width of the type.
\<close>

definition new_state_var ::
    "nat \<Rightarrow> checker \<Rightarrow> (fault \<times> checker) + (state_var option \<times> checker)" where
  "new_state_var nr_bits s =
     (if started s then
        Inr (None, s\<lparr>err_msg := Some ''State variables must not be created after start''\<rparr>)
      else if nr_bits > 32 then
        Inr (None, s\<lparr>err_msg := Some ''Too many bits in a state variable''\<rparr>)
      else
        let s1 = (if tot_bits s + nr_bits > 32
                  then s\<lparr>nr_words := nr_words s + 1, tot_bits := 0\<rparr> else s);
            s2 = s1\<lparr>tot_bits := tot_bits s1 + nr_bits\<rparr>
        in if 32 \<le> nr_bits then Inl (Shift_undefined nr_bits, s2)
           else if 32 \<le> tot_bits s1 then Inl (Shift_undefined (tot_bits s1), s2)
           else Inr (Some \<lparr>sv_word = nr_words s1 - 1, sv_shift = tot_bits s1,
                            sv_mask = push_bit (tot_bits s1) (push_bit nr_bits 1 - 1)\<rparr>, s2))"

text \<open>\<open>operator unsigned()\<close>: the value of the variable in the current state.\<close>

definition sv_read :: "state_var \<Rightarrow> checker \<Rightarrow> u32" where
  "sv_read v s =
     drop_bit (sv_shift v) ((st_data s ! (state_nr s * nr_words s + sv_word v)) AND sv_mask v)"

text \<open>
  \<open>operator =(unsigned val)\<close>. The flag is true when the sanity checks are compiled in
  (\<open>no_sanity_chk\<close> is not defined).
\<close>

definition sv_assign :: "bool \<Rightarrow> state_var \<Rightarrow> u32 \<Rightarrow> checker \<Rightarrow> checker" where
  "sv_assign sanity v val s =
     (let s1 = (if sanity \<and> (push_bit (sv_shift v) val AND NOT (sv_mask v)) \<noteq> 0
                then s\<lparr>err_msg := Some ''Assigned an out of range value to a variable''\<rparr>
                else s);
          k = state_nr s1 * nr_words s1 + sv_word v;
          s2 = s1\<lparr>st_data := (st_data s1)[k := (st_data s1 ! k) AND NOT (sv_mask v)]\<rparr>
      in s2\<lparr>st_data := (st_data s2)[k := (st_data s2 ! k) OR push_bit (sv_shift v) val]\<rparr>)"

text \<open>
  The four variables \<open>ATM, x, CH1, y\<close> that bank.cc declares first, each with the default
  eight bits: the fourth gets the last byte of word 0.
\<close>

definition declare_next ::
    "(fault \<times> checker) + (state_var option \<times> checker) \<Rightarrow> nat
       \<Rightarrow> (fault \<times> checker) + (state_var option \<times> checker)" where
  "declare_next r nr_bits = (case r of Inl f \<Rightarrow> Inl f | Inr (v, s) \<Rightarrow> new_state_var nr_bits s)"

definition declare4 :: "(fault \<times> checker) + (state_var option \<times> checker)" where
  "declare4 =
     declare_next (declare_next (declare_next (new_state_var 8 initial_checker) 8) 8) 8"

lemma declare4_eq:
  "declare4 = Inr (Some \<lparr>sv_word = 0, sv_shift = 24, sv_mask = 0xFF000000\<rparr>,
                   initial_checker\<lparr>tot_bits := 32\<rparr>)"
  by (simp add: declare4_def declare_next_def new_state_var_def initial_checker_def Let_def)


subsection \<open>Compile-time options and the model under analysis\<close>

text \<open>
  The numerical settings and switches of asset.cc that change what the checker
  does. \<open>sanity_chk\<close> is true unless \<open>no_sanity_chk\<close> is defined. The embedding is of
  the program without \<open>stubborn\<close>, with \<open>no_show_cnt\<close> (no running state count), without
  \<open>size_par\<close>, and without a \<open>no_progr_chk\<close> of the user's own.
\<close>

record config =
  hash_bits :: nat
  stop_count :: nat
  try_forward :: bool
  dl_not_may :: bool
  dl_not_must :: bool
  sanity_chk :: bool
  only_typical :: bool

text \<open>
  The model of asset.model. Its functions read and write the variables of the current
  state only (\<open>state_var\<close> has no other access), so each is a function of the words
  of the current state; a function that may write returns the new words. Each may set
  \<open>err_msg\<close>: the last component is the message it sets, if any. An optional function
  is \<open>None\<close> when its \<open>#define\<close> is absent.
\<close>

record model =
  nr_transitions :: "u32 list \<Rightarrow> nat \<times> u32 list \<times> string option"
  fire_transition :: "nat \<Rightarrow> u32 list \<Rightarrow> bool \<times> u32 list \<times> string option"
  check_state :: "(u32 list \<Rightarrow> string option) option"
  check_deadlock :: "(u32 list \<Rightarrow> string option) option"
  is_may_progress :: "(u32 list \<Rightarrow> bool \<times> string option) option"
  is_must_progress :: "(u32 list \<Rightarrow> bool \<times> string option) option"
  symmetry_representative :: "(u32 list \<Rightarrow> u32 list \<times> string option) option"

text \<open>
  \<open>no_progr_chk\<close> is defined by asset.cc itself when neither progress check is
  selected, and undefined again for \<open>only_typical\<close>. With it the nodes have no \<open>e_cnt\<close>,
  \<open>p_next\<close> and \<open>ie_end\<close>, and the code that uses them is not compiled.
\<close>

definition no_progr_chk :: "config \<Rightarrow> model \<Rightarrow> bool" where
  "no_progr_chk cfg m =
     (is_must_progress m = None \<and> is_may_progress m = None \<and> \<not> only_typical cfg)"

subsection \<open>The current state and the scratch slot\<close>

definition set_err :: "string option \<Rightarrow> checker \<Rightarrow> checker" where
  "set_err e s = (case e of None \<Rightarrow> s | Some msg \<Rightarrow> s\<lparr>err_msg := Some msg\<rparr>)"

text \<open>The words of state number \<open>ni\<close>: locations \<open>ni * nr_words ..< (ni+1) * nr_words\<close>.\<close>

definition state_words :: "checker \<Rightarrow> nat \<Rightarrow> u32 list" where
  "state_words s ni = map (\<lambda>i. st_data s ! (ni * nr_words s + i)) [0..<nr_words s]"

definition cur_state :: "checker \<Rightarrow> u32 list" where
  "cur_state s = state_words s (state_nr s)"

text \<open>What a model function leaves in the words of the current state.\<close>

definition put_state :: "u32 list \<Rightarrow> checker \<Rightarrow> checker" where
  "put_state ws s =
     s\<lparr>st_data := map (\<lambda>i. if state_nr s * nr_words s \<le> i \<and> i < (state_nr s + 1) * nr_words s
                              then ws ! (i - state_nr s * nr_words s) else st_data s ! i)
                        [0..<length (st_data s)]\<rparr>"

definition use_state :: "nat \<Rightarrow> checker \<Rightarrow> checker" where
  "use_state ni s = s\<lparr>state_nr := ni\<rparr>"

text \<open>
  \<open>fire_init\<close>: copy state \<open>ni\<close> to the first unused locations, word by word. The cursors
  \<open>jj\<close>, \<open>ii\<close> and the bound \<open>end\<close> are \<open>unsigned\<close>.
\<close>

definition fire_init :: "nat \<Rightarrow> checker \<Rightarrow> checker" where
  "fire_init ni s =
     (let jj = (length (nodes s) * nr_words s) mod 2 ^ 32;
          ii = (ni * nr_words s) mod 2 ^ 32;
          en = ((ni + 1) * nr_words s) mod 2 ^ 32
      in use_state (length (nodes s))
           (s\<lparr>st_data := foldl (\<lambda>d i. d[(jj + i) mod 2 ^ 32 := d ! (ii + i)])
                              (st_data s) [0..<en - ii]\<rparr>))"

subsection \<open>The hash table\<close>

text \<open>One round of the hash loop, for one word of the state.\<close>

definition hash_step :: "nat \<Rightarrow> u32 \<Rightarrow> u32 \<Rightarrow> u32" where
  "hash_step hb idx w =
     (let i1 = idx XOR w;
          i2 = i1 XOR drop_bit hb i1;
          i3 = i2 * 1234567 + 5555555;
          i4 = i3 XOR drop_bit hb i3
      in i4 * 1234567 + 5555555)"

definition hash_value :: "config \<Rightarrow> u32 list \<Rightarrow> nat" where
  "hash_value cfg ws =
     unat (foldl (hash_step (hash_bits cfg)) 0 ws AND (push_bit (hash_bits cfg) 1 - 1))"

text \<open>
  The search loop of \<open>hash_try\<close>: \<open>ni\<close> walks the hash list, \<open>ii\<close> and \<open>jj\<close> compare the
  scratch slot with state \<open>ni\<close> word by word. The loop has no bound of its own.
\<close>

partial_function (option) hash_search ::
    "checker \<Rightarrow> nat \<Rightarrow> nat \<Rightarrow> nat \<Rightarrow> nat \<Rightarrow> nat \<Rightarrow> nat option" where
  "hash_search s beg en ni ii jj =
     (if ni \<noteq> 0 \<and> ii < en then
        (if st_data s ! ii = st_data s ! jj then hash_search s beg en ni (ii + 1) (jj + 1)
         else hash_search s beg en (h_next (nodes s ! ni)) beg
                (h_next (nodes s ! ni) * nr_words s))
      else Some ni)"

declare hash_search.simps [code]

text \<open>\<open>std::vector::resize\<close>: new elements are value-initialised.\<close>

definition resize :: "nat \<Rightarrow> 'a \<Rightarrow> 'a list \<Rightarrow> 'a list" where
  "resize n z xs = take n xs @ replicate (n - length xs) z"

definition zero_node :: node_type where
  "zero_node = \<lparr>h_next = 0, prev = 0, e_cnt = 0, p_next = 0, ie_end = 0\<rparr>"

text \<open>
  \<open>hash_try\<close>: the state is in the locations after the last stored state. The result is
  the returned index and the globals after the call. The new size of the state data,
  \<open>(ni + 2) * nr_words\<close>, is an \<open>unsigned\<close> product.
\<close>

definition hash_try :: "config \<Rightarrow> bool \<Rightarrow> checker \<Rightarrow> (nat \<times> checker) option" where
  "hash_try cfg no_ins s =
     (let beg = length (nodes s) * nr_words s;
          en = beg + nr_words s;
          idx = hash_value cfg (map (\<lambda>ii. st_data s ! ii) [beg..<en])
      in Option.bind
           (hash_search s beg en (hash_tbl s idx) beg (hash_tbl s idx * nr_words s))
           (\<lambda>ni.
              if ni \<noteq> 0 then Some (ni, s\<lparr>hash_was_new := False\<rparr>)
              else if no_ins then Some (0, s)
              else
                let ni = length (nodes s) in
                if ni > stop_count cfg then
                  Some (ni, s\<lparr>err_msg := Some ''Maximum number of states exceeded''\<rparr>)
                else
                  Some (ni,
                    s\<lparr>nodes := (resize (ni + 1) zero_node (nodes s))
                                  [ni := zero_node\<lparr>e_cnt := 0, h_next := hash_tbl s idx\<rparr>],
                      st_data := resize (((ni + 2) * nr_words s) mod 2 ^ 32) 0 (st_data s),
                      hash_tbl := (hash_tbl s)(idx := ni),
                      hash_was_new := True\<rparr>)))"

definition hash_find :: "config \<Rightarrow> checker \<Rightarrow> (nat \<times> checker) option" where
  "hash_find cfg s = hash_try cfg True s"

definition hash_insert :: "config \<Rightarrow> checker \<Rightarrow> (nat \<times> checker) option" where
  "hash_insert cfg s = hash_try cfg False s"


subsection \<open>Reporting\<close>

definition upd_node :: "nat \<Rightarrow> (node_type \<Rightarrow> node_type) \<Rightarrow> checker \<Rightarrow> checker" where
  "upd_node i f s = s\<lparr>nodes := (nodes s)[i := f (nodes s ! i)]\<rparr>"

text \<open>The model's state printer prints the current state and must not change it.\<close>

definition show_state :: "checker \<Rightarrow> checker" where
  "show_state s = s\<lparr>out := out s @ [Print_state (cur_state s)]\<rparr>"

text \<open>
  \<open>print_history\<close>: recursion along the \<open>prev\<close> pointers down to the end mark 0, printing
  on the way back.
\<close>

partial_function (option) print_history :: "nat \<Rightarrow> checker \<Rightarrow> checker option" where
  "print_history ni s =
     (if ni = 0 then Some s
      else Option.bind (print_history (prev (nodes s ! ni)) s)
             (\<lambda>s1. Some (show_state (use_state ni s1))))"

declare print_history.simps [code]

text \<open>\<open>report_error\<close>, with its static flag \<open>reported\<close>.\<close>

definition report_error :: "nat \<Rightarrow> string \<Rightarrow> checker \<Rightarrow> checker option" where
  "report_error ni msg s =
     (if reported s then Some s
      else Option.bind (print_history ni (s\<lparr>reported := True\<rparr>))
             (\<lambda>s1. Some (s1\<lparr>out := out s1 @
                [Print_error msg
                   (case err_msg s1 of None \<Rightarrow> None
                    | Some e \<Rightarrow> if e \<noteq> [] then Some e else None)]\<rparr>)))"

subsection \<open>Trying a transition\<close>

definition fire :: "model \<Rightarrow> nat \<Rightarrow> checker \<Rightarrow> bool \<times> checker" where
  "fire m tr s =
     (let (enabled, ws, e) = fire_transition m tr (cur_state s)
      in (enabled, set_err e (put_state ws s)))"

definition symmetry :: "model \<Rightarrow> checker \<Rightarrow> checker" where
  "symmetry m s =
     (case symmetry_representative m of None \<Rightarrow> s
      | Some f \<Rightarrow> (let (ws, e) = f (cur_state s) in set_err e (put_state ws s)))"

text \<open>
  \<open>try_transition\<close>. The result is the returned flag and the globals, or the fault of
  the first access beyond the end of \<open>nodes\<close> or \<open>iedges\<close>. The branch for the second
  pass and the statement \<open>++nodes[n2].e_cnt\<close> are compiled only without
  \<open>no_progr_chk\<close>.
\<close>

definition try_transition ::
    "config \<Rightarrow> model \<Rightarrow> nat \<Rightarrow> nat \<Rightarrow> checker \<Rightarrow> (bool \<times> checker) run" where
  "try_transition cfg m n1 tr s =
     (let (enabled, s1) = fire m tr s in
      if sanity_chk cfg \<and> err_msg s1 \<noteq> None then
        Option.bind (report_error n1 ''Transition firing error'' s1)
          (\<lambda>s2. Some (Inr (False, s2)))
      else if \<not> enabled then Some (Inr (False, s1))
      else
        let s2 = symmetry m s1 in
        if \<not> no_progr_chk cfg m \<and> bss_second s2 then
          Option.bind (hash_find cfg s2)
            (\<lambda>(n, s3).
               if length (nodes s3) \<le> n then Some (Inl (Node_out_of_range n, s3))
               else
                 let c = ie_end (nodes s3 ! n);
                     s4 = upd_node n (\<lambda>nd. nd\<lparr>ie_end := c + 1\<rparr>) s3
                 in if length (iedges s4) \<le> c then Some (Inl (Edge_out_of_range c, s4))
                    else Some (Inr (True, fire_init n1 (s4\<lparr>iedges := (iedges s4)[c := n1]\<rparr>))))
        else
          Option.bind (hash_insert cfg s2)
            (\<lambda>(n2, s3).
               let s4 = s3\<lparr>nr_edges := nr_edges s3 + 1\<rparr> in
               if \<not> no_progr_chk cfg m \<and> length (nodes s4) \<le> n2 then
                 Some (Inl (Node_out_of_range n2, s4))
               else
                 let s5 = (if no_progr_chk cfg m then s4
                           else upd_node n2 (\<lambda>nd. nd\<lparr>e_cnt := e_cnt nd + 1\<rparr>) s4) in
                 if hash_was_new s5 then
                   if length (nodes s5) \<le> n2 then Some (Inl (Node_out_of_range n2, s5))
                   else
                     let s6 = upd_node n2 (\<lambda>nd. nd\<lparr>prev := n1\<rparr>) s5 in
                     (case check_state m of
                        None \<Rightarrow> Some (Inr (True, fire_init n1 s6))
                      | Some chk \<Rightarrow>
                          let s7 = s6\<lparr>err_msg := chk (cur_state s6)\<rparr> in
                          if err_msg s7 \<noteq> None then
                            Option.bind (report_error n2 ''Safety error'' s7)
                              (\<lambda>s8. Some (Inr (True, s8)))
                          else Some (Inr (True, fire_init n1 s7)))
                 else Some (Inr (True, fire_init n1 s5))))"

subsection \<open>Constructing the state space\<close>

text \<open>The order in which \<open>build_state_space\<close> tries the transitions of a state.\<close>

definition tr_order :: "config \<Rightarrow> checker \<Rightarrow> nat list" where
  "tr_order cfg s = (if try_forward cfg then [0..<nr_trans s] else rev [0..<nr_trans s])"

text \<open>
  The loop over the transitions of state \<open>q\<close>. The flag of the result says that
  \<open>build_state_space\<close> has returned from inside the loop (\<open>if( err_msg ){ return; }\<close>).
\<close>

fun try_all :: "config \<Rightarrow> model \<Rightarrow> nat \<Rightarrow> nat list \<Rightarrow> checker \<Rightarrow> (bool \<times> checker) run" where
  "try_all cfg m q [] s = Some (Inr (False, s))"
| "try_all cfg m q (tr # trs) s =
     Option.bind (try_transition cfg m q tr s)
       (\<lambda>r. case r of
          Inl f \<Rightarrow> Some (Inl f)
        | Inr (fired, s1) \<Rightarrow>
            if err_msg s1 \<noteq> None then Some (Inr (True, s1)) else try_all cfg m q trs s1)"

text \<open>
  The deadlock check at the end of the body, for a state none of whose transitions
  added an edge. The flag says that \<open>build_state_space\<close> has returned. The test of
  \<open>bss_second\<close> is compiled only without \<open>no_progr_chk\<close>.
\<close>

definition deadlock_check ::
    "config \<Rightarrow> model \<Rightarrow> nat \<Rightarrow> nat \<Rightarrow> checker \<Rightarrow> (bool \<times> checker) option" where
  "deadlock_check cfg m q old_edges s =
     (if (no_progr_chk cfg m \<or> \<not> bss_second s) \<and> old_edges = nr_edges s then
        (case check_deadlock m of
           None \<Rightarrow> Some (False, s)
         | Some chk \<Rightarrow>
             let s1 = use_state q s; s2 = s1\<lparr>err_msg := chk (cur_state s1)\<rparr> in
             if err_msg s2 \<noteq> None then
               Option.bind (report_error q ''Illegal deadlock'' s2) (\<lambda>s3. Some (True, s3))
             else Some (False, s2))
      else Some (False, s))"

text \<open>The breadth-first loop: \<open>q_first\<close> runs over the nodes while new ones are appended.\<close>

partial_function (option) bss_loop :: "config \<Rightarrow> model \<Rightarrow> nat \<Rightarrow> checker \<Rightarrow> checker run" where
  "bss_loop cfg m q_first s =
     (if q_first < length (nodes s) then
        (let old_edges = nr_edges s; s1 = fire_init q_first s in
         Option.bind (try_all cfg m q_first (tr_order cfg s1) s1)
           (\<lambda>r. case r of
              Inl f \<Rightarrow> Some (Inl f)
            | Inr (returned, s2) \<Rightarrow>
                if returned then Some (Inr s2)
                else Option.bind (deadlock_check cfg m q_first old_edges s2)
                  (\<lambda>(returned, s3).
                     if returned then Some (Inr s3) else bss_loop cfg m (q_first + 1) s3)))
      else Some (Inr s))"

declare bss_loop.simps [code]

definition build_state_space :: "config \<Rightarrow> model \<Rightarrow> checker \<Rightarrow> checker run" where
  "build_state_space cfg m s = bss_loop cfg m 1 s"

subsection \<open>Incoming edges\<close>

text \<open>
  \<open>construct_input_edges\<close>: the running sums of \<open>e_cnt\<close> become the start cursors, then the
  edges are generated again with \<open>bss_second\<close> set. The fresh array \<open>iedges\<close> has
  \<open>nr_edges\<close> cells, here filled with 0.
\<close>

definition ie_sums :: "checker \<Rightarrow> checker" where
  "ie_sums s =
     foldl (\<lambda>s ni. upd_node ni
               (\<lambda>nd. nd\<lparr>ie_end := ie_end (nodes s ! (ni - 1)) + e_cnt (nodes s ! (ni - 1))\<rparr>) s)
       (upd_node 0 (\<lambda>nd. nd\<lparr>ie_end := 0\<rparr>) (upd_node 1 (\<lambda>nd. nd\<lparr>ie_end := 0\<rparr>) s))
       [2..<length (nodes s)]"

definition construct_input_edges :: "config \<Rightarrow> model \<Rightarrow> checker \<Rightarrow> checker run" where
  "construct_input_edges cfg m s =
     build_state_space cfg m
       ((ie_sums (s\<lparr>iedges := replicate (nr_edges s) 0\<rparr>))\<lparr>bss_second := True\<rparr>)"


subsection \<open>A typical sequence of events\<close>

text \<open>\<open>~0u\<close>, the mark of a state on the sequence.\<close>

definition all_ones :: nat where
  "all_ones = 4294967295"

text \<open>
  The body of the loop over the transitions in \<open>print_typical\<close>, up to the test of
  \<open>err_msg\<close>: the result is the new \<open>ni\<close>, whether the successor is taken (the code then
  sets \<open>tr = nr_trans\<close>), and the globals.
\<close>

definition typical_try ::
    "config \<Rightarrow> model \<Rightarrow> bool \<Rightarrow> nat \<Rightarrow> nat \<Rightarrow> nat \<Rightarrow> checker \<Rightarrow> (nat \<times> bool \<times> checker) run" where
  "typical_try cfg m no_ins nprev tr ni s =
     (let (enabled, s1) = fire m tr s in
      if enabled then
        let s2 = symmetry m s1 in
        Option.bind (if no_ins then hash_find cfg s2 else hash_insert cfg s2)
          (\<lambda>(n, s3).
             if \<not> no_ins \<and> length (nodes s3) \<le> n then Some (Inl (Node_out_of_range n, s3))
             else
               let s4 = (if \<not> no_ins \<and> hash_was_new s3
                         then upd_node n (\<lambda>nd. nd\<lparr>e_cnt := 1\<rparr>) s3 else s3)
               in if n \<noteq> 0 \<and> e_cnt (nodes s4 ! n) \<noteq> 0 then Some (Inr (n, True, s4))
                  else Some (Inr (nprev, False, fire_init nprev s4)))
      else Some (Inr (ni, False, s1)))"

text \<open>
  The loop over the transitions. The first flag of the result says that
  \<open>print_typical\<close> has returned from inside the loop.
\<close>

fun typical_scan ::
    "config \<Rightarrow> model \<Rightarrow> bool \<Rightarrow> nat \<Rightarrow> nat list \<Rightarrow> nat \<Rightarrow> checker \<Rightarrow> (bool \<times> nat \<times> checker) run" where
  "typical_scan cfg m no_ins nprev [] ni s = Some (Inr (False, ni, s))"
| "typical_scan cfg m no_ins nprev (tr # trs) ni s =
     Option.bind (typical_try cfg m no_ins nprev tr ni s)
       (\<lambda>r. case r of
          Inl f \<Rightarrow> Some (Inl f)
        | Inr (ni1, taken, s1) \<Rightarrow>
            if err_msg s1 \<noteq> None then
              Option.bind (report_error ni1 ''Transition firing error'' s1)
                (\<lambda>s2. Some (Inr (True, ni1, s2)))
            else if taken then Some (Inr (False, ni1, s1))
            else typical_scan cfg m no_ins nprev trs ni1 s1)"

text \<open>
  The \<open>do ... while\<close> loop that finds the looping state. The result is the flag that
  \<open>print_typical\<close> has returned, the final \<open>ni\<close> and \<open>nprev\<close>, and the globals.
\<close>

partial_function (option) typical_loop ::
    "config \<Rightarrow> model \<Rightarrow> bool \<Rightarrow> nat \<Rightarrow> nat \<Rightarrow> checker \<Rightarrow> (bool \<times> nat \<times> nat \<times> checker) run" where
  "typical_loop cfg m no_ins ni nprev s =
     (let s1 = upd_node ni (\<lambda>nd. nd\<lparr>prev := nprev\<rparr>) (upd_node ni (\<lambda>nd. nd\<lparr>e_cnt := all_ones\<rparr>) s);
          s2 = fire_init ni s1
      in Option.bind (typical_scan cfg m no_ins ni [0..<nr_trans s2] ni s2)
           (\<lambda>r. case r of
              Inl f \<Rightarrow> Some (Inl f)
            | Inr (returned, ni1, s3) \<Rightarrow>
                if returned then Some (Inr (True, ni1, ni, s3))
                else if e_cnt (nodes s3 ! ni1) \<noteq> all_ones then typical_loop cfg m no_ins ni1 ni s3
                else Some (Inr (False, ni1, ni, s3))))"

declare typical_loop.simps [code]

definition print_typical :: "config \<Rightarrow> model \<Rightarrow> nat \<Rightarrow> bool \<Rightarrow> checker \<Rightarrow> checker run" where
  "print_typical cfg m ni no_ins s =
     Option.bind (typical_loop cfg m no_ins ni 0 s)
       (\<lambda>r. case r of
          Inl f \<Rightarrow> Some (Inl f)
        | Inr (returned, ni1, nprev, s1) \<Rightarrow>
            if returned then Some (Inr s1)
            else
              Option.bind (print_history (prev (nodes s1 ! ni1)) s1)
                (\<lambda>s2. let s3 = s2\<lparr>out := out s2 @ [Print_line ''----------'']\<rparr>;
                           s4 = upd_node ni1 (\<lambda>nd. nd\<lparr>prev := 0\<rparr>) s3
                       in Option.bind (print_history nprev s4) (\<lambda>s5. Some (Inr s5))))"

subsection \<open>Progress verification\<close>

text \<open>The initial values of the non-progress numbers (the first loops of \<open>verify_progress\<close>).\<close>

definition vp_init :: "nat \<Rightarrow> checker \<Rightarrow> checker" where
  "vp_init round s =
     (let s1 = foldl (\<lambda>s ni. upd_node ni (\<lambda>nd. nd\<lparr>e_cnt := 0\<rparr>) s) s [1..<length (nodes s)]
      in if round = 1 then
           foldl (\<lambda>s ei. upd_node (iedges s ! ei) (\<lambda>nd. nd\<lparr>e_cnt := e_cnt nd + 1\<rparr>) s)
             s1 [0..<nr_edges s1]
         else
           foldl (\<lambda>s ei. upd_node (iedges s ! ei) (\<lambda>nd. nd\<lparr>e_cnt := 1\<rparr>) s)
             s1 [0..<nr_edges s1])"

text \<open>
  The loop over the nodes that makes the numbers 0 for progress states: the same code
  for round 0 and round 1, with the flag \<open>dl_not_may\<close> or \<open>dl_not_must\<close> and the model's
  predicate of the round. A predicate that is not defined drops the \<open>if\<close> before the
  block, so the block is always executed. The flag of the result says that
  \<open>verify_progress\<close> has returned.
\<close>

fun vp_progress ::
    "bool \<Rightarrow> (u32 list \<Rightarrow> bool \<times> string option) option \<Rightarrow> string \<Rightarrow> nat list \<Rightarrow> checker
       \<Rightarrow> (bool \<times> checker) option" where
  "vp_progress dl_not pred msg [] s = Some (False, s)"
| "vp_progress dl_not pred msg (ni # nis) s =
     (let s1 = (if dl_not \<and> e_cnt (nodes s ! ni) = 0
                then upd_node ni (\<lambda>nd. nd\<lparr>e_cnt := 1\<rparr>) s else s)
      in if e_cnt (nodes s1 ! ni) \<noteq> 0 then
           (let s2 = use_state ni s1;
                (b, e) = (case pred of None \<Rightarrow> (True, None) | Some f \<Rightarrow> f (cur_state s2));
                s3 = (if b then upd_node ni (\<lambda>nd. nd\<lparr>e_cnt := 0\<rparr>) (set_err e s2)
                      else set_err e s2)
            in if err_msg s3 \<noteq> None then
                 Option.bind (report_error ni msg s3) (\<lambda>s4. Some (True, s4))
               else vp_progress dl_not pred msg nis s3)
         else vp_progress dl_not pred msg nis s1)"

definition vp_mark :: "config \<Rightarrow> model \<Rightarrow> nat \<Rightarrow> checker \<Rightarrow> (bool \<times> checker) option" where
  "vp_mark cfg m round s =
     (if round = 0 then
        vp_progress (dl_not_may cfg) (is_may_progress m) ''may_progress modelling error''
          [1..<length (nodes s)] s
      else if round = 1 then
        vp_progress (dl_not_must cfg) (is_must_progress m) ''must_progress modelling error''
          [1..<length (nodes s)] s
      else Some (False, s))"

text \<open>The progress search list: every node whose number is 0, linked through \<open>p_next\<close>.\<close>

definition vp_list :: "checker \<Rightarrow> nat \<times> checker" where
  "vp_list s =
     foldl (\<lambda>(p_list, s) ni.
              if e_cnt (nodes s ! ni) = 0
              then (ni, upd_node ni (\<lambda>nd. nd\<lparr>p_next := p_list\<rparr>) s) else (p_list, s))
       (0, s) [1..<length (nodes s)]"

text \<open>The body of the inner loop of the backward propagation, for the incoming edge \<open>ei\<close>.\<close>

definition vp_edge :: "nat \<Rightarrow> checker \<Rightarrow> nat \<Rightarrow> checker" where
  "vp_edge p_list s ei =
     (let ni = iedges s ! ei in
      if e_cnt (nodes s ! ni) \<noteq> 0 then
        (let s1 = upd_node ni (\<lambda>nd. nd\<lparr>e_cnt := e_cnt nd - 1\<rparr>) s in
         if e_cnt (nodes s1 ! ni) = 0 then
           upd_node p_list (\<lambda>nd. nd\<lparr>p_next := ni\<rparr>)
             (upd_node ni (\<lambda>nd. nd\<lparr>p_next := p_next (nodes s1 ! p_list)\<rparr>) s1)
         else s1)
      else s)"

text \<open>The outer loop: it follows the list while the inner loop inserts into it.\<close>

partial_function (option) vp_wave :: "nat \<Rightarrow> checker \<Rightarrow> checker option" where
  "vp_wave p_list s =
     (if p_list \<noteq> 0 then
        (let s1 = foldl (vp_edge p_list) s
                    [ie_end (nodes s ! (p_list - 1))..<ie_end (nodes s ! p_list)]
         in vp_wave (p_next (nodes s1 ! p_list)) s1)
      else Some s)"

declare vp_wave.simps [code]

text \<open>
  The last loop: the first node whose number is not 0 is reported with its history and
  a typical sequence. For a round other than 0, 1 and 2 the loop goes on.
\<close>

fun vp_report :: "config \<Rightarrow> model \<Rightarrow> nat \<Rightarrow> nat list \<Rightarrow> checker \<Rightarrow> checker run" where
  "vp_report cfg m round [] s = Some (Inr s)"
| "vp_report cfg m round (ni # nis) s =
     (if e_cnt (nodes s ! ni) \<noteq> 0 then
        Option.bind (print_history (prev (nodes s ! ni)) s)
          (\<lambda>s1. Option.bind
             (print_typical cfg m ni True (s1\<lparr>out := out s1 @ [Print_line ''=========='']\<rparr>))
             (\<lambda>r. case r of
                Inl f \<Rightarrow> Some (Inl f)
              | Inr s2 \<Rightarrow>
                  let s3 = s2\<lparr>err_msg := Some []\<rparr> in
                  if round = 0 then
                    Option.bind (report_error 0 ''May-type non-progress error'' s3)
                      (\<lambda>s4. Some (Inr s4))
                  else if round = 1 then
                    Option.bind (report_error 0 ''Must-type non-progress error'' s3)
                      (\<lambda>s4. Some (Inr s4))
                  else if round = 2 then
                    Option.bind
                      (report_error 0 ''State was reached from which termination is unreachable'' s3)
                      (\<lambda>s4. Some (Inr s4))
                  else vp_report cfg m round nis s3))
      else vp_report cfg m round nis s)"

text \<open>
  The numbers after the backward propagation, before errors are looked for: \<open>None\<close> if
  the propagation does not return, and the flag is true if the progress predicate set
  \<open>err_msg\<close> and \<open>verify_progress\<close> returned early.
\<close>

definition vp_label :: "config \<Rightarrow> model \<Rightarrow> nat \<Rightarrow> checker \<Rightarrow> (bool \<times> checker) option" where
  "vp_label cfg m round s =
     Option.bind (vp_mark cfg m round (vp_init round s))
       (\<lambda>(returned, s1).
          if returned then Some (True, s1)
          else (let (p_list, s2) = vp_list s1
                in Option.bind (vp_wave p_list s2) (\<lambda>s3. Some (False, s3))))"

definition verify_progress :: "config \<Rightarrow> model \<Rightarrow> nat \<Rightarrow> checker \<Rightarrow> checker run" where
  "verify_progress cfg m round s =
     Option.bind (vp_label cfg m round s)
       (\<lambda>(returned, s1).
          if returned then Some (Inr s1)
          else vp_report cfg m round [1..<length (nodes s1)] s1)"

subsection \<open>The initial state and the main program\<close>

definition store_initial_state :: "config \<Rightarrow> model \<Rightarrow> checker \<Rightarrow> checker run" where
  "store_initial_state cfg m s =
     (let s1 = s\<lparr>started := True, nodes := resize 1 zero_node (nodes s),
                  st_data := resize ((2 * nr_words s) mod 2 ^ 32) 0 (st_data s)\<rparr>;
          s2 = s1\<lparr>st_data := foldl (\<lambda>d ii. d[ii := 0]) (st_data s1)
                                 [nr_words s1..<(2 * nr_words s1) mod 2 ^ 32]\<rparr>;
          s3 = use_state 1 s2;
          (n, ws, e) = nr_transitions m (cur_state s3);
          s4 = (set_err e (put_state ws s3))\<lparr>nr_trans := n\<rparr>;
          s5 = symmetry m s4
      in Option.bind (hash_insert cfg s5)
           (\<lambda>(ni, s6).
              if length (nodes s6) \<le> 1 then Some (Inl (Node_out_of_range 1, s6))
              else
                let s7 = upd_node 1 (\<lambda>nd. nd\<lparr>prev := 0\<rparr>) s6 in
                if err_msg s7 \<noteq> None then
                  Option.bind (report_error 1 ''Initialization error'' s7) (\<lambda>s8. Some (Inr s8))
                else if nr_trans s7 = all_ones then
                  Option.bind (report_error 0 ''Too many transitions'' (s7\<lparr>err_msg := Some []\<rparr>))
                    (\<lambda>s8. Some (Inr s8))
                else
                  (case check_state m of
                     None \<Rightarrow> Some (Inr s7)
                   | Some chk \<Rightarrow>
                       let s8 = s7\<lparr>err_msg := chk (cur_state s7)\<rparr> in
                       if err_msg s8 \<noteq> None then
                         Option.bind (report_error 1 ''Safety error'' s8) (\<lambda>s9. Some (Inr s9))
                       else Some (Inr s8))))"

text \<open>
  Sequencing for \<open>main\<close>: a step that is run only \<open>if( !err_msg )\<close>, and the passing on
  of a fault.
\<close>

definition unless_err :: "(checker \<Rightarrow> checker run) \<Rightarrow> checker \<Rightarrow> checker run" where
  "unless_err f s = (if err_msg s = None then f s else Some (Inr s))"

definition and_then :: "checker run \<Rightarrow> (checker \<Rightarrow> checker run) \<Rightarrow> checker run" where
  "and_then r f =
     Option.bind r (\<lambda>x. case x of Inl flt \<Rightarrow> Some (Inl flt) | Inr s \<Rightarrow> f s)"

definition lift_report :: "checker option \<Rightarrow> checker run" where
  "lift_report r = Option.bind r (\<lambda>s. Some (Inr s))"

text \<open>The lines that \<open>main\<close> prints at its end.\<close>

definition print_states :: "checker \<Rightarrow> checker" where
  "print_states s = s\<lparr>out := out s @ [Print_states (length (nodes s) - 1)]\<rparr>"

definition print_counts :: "checker \<Rightarrow> checker" where
  "print_counts s = s\<lparr>out := out s @ [Print_counts (length (nodes s) - 1) (nr_edges s)]\<rparr>"

definition settings :: "config \<Rightarrow> model \<Rightarrow> string" where
  "settings cfg m =
     ''Settings:'' @
     (if check_state m \<noteq> None then '' state'' else []) @
     (if check_deadlock m \<noteq> None then '' dl'' else []) @
     (if is_may_progress m \<noteq> None
      then '' may'' @ (if dl_not_may cfg then ''!dl'' else []) else []) @
     (if is_must_progress m \<noteq> None
      then '' must'' @ (if dl_not_must cfg then ''!dl'' else []) else []) @
     (if symmetry_representative m \<noteq> None then '' symm'' else []) @
     (if try_forward cfg then '' forw'' else []) @
     (if \<not> sanity_chk cfg then '' no_s_s'' else []) @
     '' hash_bits=''"

definition print_settings :: "config \<Rightarrow> model \<Rightarrow> checker \<Rightarrow> checker" where
  "print_settings cfg m s =
     s\<lparr>out := out s @ [Print_settings (settings cfg m) (hash_bits cfg)]\<rparr>"

text \<open>\<open>main\<close> after \<open>store_initial_state\<close> has returned.\<close>

definition main_rest :: "config \<Rightarrow> model \<Rightarrow> checker \<Rightarrow> checker run" where
  "main_rest cfg m s1 =
     (if err_msg s1 \<noteq> None then lift_report (report_error 0 ''Initialization error'' s1)
      else if only_typical cfg then
        and_then (print_typical cfg m 1 False s1)
          (\<lambda>s2. if err_msg s2 \<noteq> None
                 then Option.bind (report_error 0 ''Error'' s2)
                        (\<lambda>s3. Some (Inr (print_states s3)))
                 else Some (Inr (print_states s2)))
      else
        and_then (build_state_space cfg m s1)
          (\<lambda>s2. and_then
             (unless_err (\<lambda>s. if no_progr_chk cfg m then Some (Inr s)
                               else construct_input_edges cfg m s) s2)
          (\<lambda>s3. and_then
             (unless_err (\<lambda>s. if is_may_progress m = None then Some (Inr s)
                               else verify_progress cfg m 0 s) s3)
          (\<lambda>s4. and_then
             (unless_err (\<lambda>s. if is_must_progress m = None then Some (Inr s)
                               else verify_progress cfg m 1 s) s4)
          (\<lambda>s5.
             let s6 = (if check_deadlock m = None \<and> is_must_progress m = None
                          \<and> is_may_progress m = None \<and> err_msg s5 = None
                       then s5\<lparr>err_msg := Some
                         ''Nothing was defined to test that the model makes progress''\<rparr>
                       else s5);
                 s7 = print_counts s6
             in if err_msg s7 \<noteq> None
                then Option.bind (report_error 0 ''Error'' s7)
                       (\<lambda>s8. Some (Inr (print_settings cfg m s8)))
                else Some (Inr (print_settings cfg m s7)))))))"

definition main :: "config \<Rightarrow> model \<Rightarrow> checker \<Rightarrow> checker run" where
  "main cfg m s =
     (if err_msg s \<noteq> None then lift_report (report_error 0 ''Cannot start model checking'' s)
      else if check_state m = None \<and> check_deadlock m = None \<and> is_must_progress m = None
              \<and> is_may_progress m = None then
        lift_report (report_error 0 ''Will not start model checking''
          (s\<lparr>err_msg := Some (''No error detection function '' @ CHR 0x22 # ''My_...'' @
                               CHR 0x22 # '' defined'')\<rparr>))
      else and_then (store_initial_state cfg m s) (main_rest cfg m))"

section \<open>What the basic operations change\<close>

lemma set_err_fields [simp]:
  "st_data (set_err e s) = st_data s" "started (set_err e s) = started s"
  "nr_words (set_err e s) = nr_words s" "tot_bits (set_err e s) = tot_bits s"
  "state_nr (set_err e s) = state_nr s" "nr_trans (set_err e s) = nr_trans s"
  "nodes (set_err e s) = nodes s" "nr_edges (set_err e s) = nr_edges s"
  "hash_tbl (set_err e s) = hash_tbl s" "hash_was_new (set_err e s) = hash_was_new s"
  "reported (set_err e s) = reported s" "bss_second (set_err e s) = bss_second s"
  "iedges (set_err e s) = iedges s" "out (set_err e s) = out s"
  by (simp_all add: set_err_def split: option.splits)

lemma set_err_err: "err_msg (set_err e s) = (case e of None \<Rightarrow> err_msg s | Some x \<Rightarrow> Some x)"
  by (simp add: set_err_def split: option.splits)

lemma put_state_fields [simp]:
  "err_msg (put_state ws s) = err_msg s" "started (put_state ws s) = started s"
  "nr_words (put_state ws s) = nr_words s" "tot_bits (put_state ws s) = tot_bits s"
  "state_nr (put_state ws s) = state_nr s" "nr_trans (put_state ws s) = nr_trans s"
  "nodes (put_state ws s) = nodes s" "nr_edges (put_state ws s) = nr_edges s"
  "hash_tbl (put_state ws s) = hash_tbl s" "hash_was_new (put_state ws s) = hash_was_new s"
  "reported (put_state ws s) = reported s" "bss_second (put_state ws s) = bss_second s"
  "iedges (put_state ws s) = iedges s" "out (put_state ws s) = out s"
  "length (st_data (put_state ws s)) = length (st_data s)"
  by (simp_all add: put_state_def)

lemma put_state_nth:
  "i < length (st_data s) \<Longrightarrow>
   st_data (put_state ws s) ! i =
     (if state_nr s * nr_words s \<le> i \<and> i < (state_nr s + 1) * nr_words s
      then ws ! (i - state_nr s * nr_words s) else st_data s ! i)"
  by (simp add: put_state_def)

lemma use_state_fields [simp]:
  "err_msg (use_state n s) = err_msg s" "started (use_state n s) = started s"
  "nr_words (use_state n s) = nr_words s" "tot_bits (use_state n s) = tot_bits s"
  "state_nr (use_state n s) = n" "nr_trans (use_state n s) = nr_trans s"
  "nodes (use_state n s) = nodes s" "nr_edges (use_state n s) = nr_edges s"
  "hash_tbl (use_state n s) = hash_tbl s" "hash_was_new (use_state n s) = hash_was_new s"
  "reported (use_state n s) = reported s" "bss_second (use_state n s) = bss_second s"
  "iedges (use_state n s) = iedges s" "out (use_state n s) = out s"
  "st_data (use_state n s) = st_data s"
  by (simp_all add: use_state_def)

lemma upd_node_fields [simp]:
  "err_msg (upd_node i f s) = err_msg s" "started (upd_node i f s) = started s"
  "nr_words (upd_node i f s) = nr_words s" "tot_bits (upd_node i f s) = tot_bits s"
  "state_nr (upd_node i f s) = state_nr s" "nr_trans (upd_node i f s) = nr_trans s"
  "nr_edges (upd_node i f s) = nr_edges s"
  "hash_tbl (upd_node i f s) = hash_tbl s" "hash_was_new (upd_node i f s) = hash_was_new s"
  "reported (upd_node i f s) = reported s" "bss_second (upd_node i f s) = bss_second s"
  "iedges (upd_node i f s) = iedges s" "out (upd_node i f s) = out s"
  "st_data (upd_node i f s) = st_data s"
  "length (nodes (upd_node i f s)) = length (nodes s)"
  by (simp_all add: upd_node_def)

lemma upd_node_nth:
  "nodes (upd_node i f s) ! j = (if j = i \<and> i < length (nodes s) then f (nodes s ! i) else nodes s ! j)"
  by (cases "i < length (nodes s)") (auto simp add: upd_node_def nth_list_update list_update_beyond)

lemma show_state_fields [simp]:
  "err_msg (show_state s) = err_msg s" "started (show_state s) = started s"
  "nr_words (show_state s) = nr_words s" "tot_bits (show_state s) = tot_bits s"
  "state_nr (show_state s) = state_nr s" "nr_trans (show_state s) = nr_trans s"
  "nodes (show_state s) = nodes s" "nr_edges (show_state s) = nr_edges s"
  "hash_tbl (show_state s) = hash_tbl s" "hash_was_new (show_state s) = hash_was_new s"
  "reported (show_state s) = reported s" "bss_second (show_state s) = bss_second s"
  "iedges (show_state s) = iedges s" "st_data (show_state s) = st_data s"
  by (simp_all add: show_state_def)

lemma copy_words_length [simp]:
  "length (foldl (\<lambda>d i. d[a + i := d ! (b + i)]) d0 [0..<k]) = length d0"
  by (induction k) auto

lemma copy_words_nth:
  assumes "b + k \<le> a"
  shows "foldl (\<lambda>d i. d[a + i := d ! (b + i)]) d0 [0..<k] ! j =
     (if a \<le> j \<and> j < a + k \<and> j < length d0 then d0 ! (b + (j - a)) else d0 ! j)"
  using assms
proof (induction k arbitrary: j)
  case 0
  then show ?case by auto
next
  case (Suc k)
  then have ih: "\<And>j. foldl (\<lambda>d i. d[a + i := d ! (b + i)]) d0 [0..<k] ! j =
     (if a \<le> j \<and> j < a + k \<and> j < length d0 then d0 ! (b + (j - a)) else d0 ! j)"
    by simp
  let ?d = "foldl (\<lambda>d i. d[a + i := d ! (b + i)]) d0 [0..<k]"
  have len: "length ?d = length d0" by simp
  have rd: "?d ! (b + k) = d0 ! (b + k)"
    using Suc.prems by (simp add: ih)
  show ?case
  proof (cases "a + k < length d0")
    case True
    then show ?thesis
      using Suc.prems by (auto simp add: ih rd nth_list_update len)
  next
    case False
    then have "?d[a + k := ?d ! (b + k)] = ?d"
      by (simp add: list_update_beyond)
    then show ?thesis
      using False by (auto simp add: ih)
  qed
qed

lemma copy_mod_length [simp]:
  "length (foldl (\<lambda>d i. d[f i := g d i]) d0 xs) = length d0"
  by (induction xs arbitrary: d0) auto

text \<open>
  \<open>addressable\<close>: the stored states and the scratch slot lie below location \<open>2 ^ 32\<close>, so
  that the cursors of \<open>fire_init\<close> do not wrap.
\<close>

definition addressable :: "checker \<Rightarrow> bool" where
  "addressable s \<longleftrightarrow> (length (nodes s) + 1) * nr_words s < 2 ^ 32"

text \<open>\<open>roomy\<close>: the same with one more state, so that \<open>hash_try\<close> can insert.\<close>

definition roomy :: "checker \<Rightarrow> bool" where
  "roomy s \<longleftrightarrow> (length (nodes s) + 2) * nr_words s < 2 ^ 32"

lemma roomy_addressable: "roomy s \<Longrightarrow> addressable s"
proof -
  have "(length (nodes s) + 1) * nr_words s \<le> (length (nodes s) + 2) * nr_words s"
    by (intro mult_le_mono1) simp
  then show "roomy s \<Longrightarrow> addressable s" by (simp add: roomy_def addressable_def)
qed

lemma fire_init_fields [simp]:
  "err_msg (fire_init n s) = err_msg s" "started (fire_init n s) = started s"
  "nr_words (fire_init n s) = nr_words s" "tot_bits (fire_init n s) = tot_bits s"
  "state_nr (fire_init n s) = length (nodes s)" "nr_trans (fire_init n s) = nr_trans s"
  "nodes (fire_init n s) = nodes s" "nr_edges (fire_init n s) = nr_edges s"
  "hash_tbl (fire_init n s) = hash_tbl s" "hash_was_new (fire_init n s) = hash_was_new s"
  "reported (fire_init n s) = reported s" "bss_second (fire_init n s) = bss_second s"
  "iedges (fire_init n s) = iedges s" "out (fire_init n s) = out s"
  "length (st_data (fire_init n s)) = length (st_data s)"
  by (simp_all add: fire_init_def Let_def)

lemma fire_init_plain:
  assumes "addressable s" "n < length (nodes s)"
  shows "st_data (fire_init n s) =
     foldl (\<lambda>d i. d[length (nodes s) * nr_words s + i := d ! (n * nr_words s + i)])
       (st_data s) [0..<nr_words s]"
proof -
  let ?N = "length (nodes s)" and ?w = "nr_words s"
  have top: "?N * ?w + ?w < 2 ^ 32" using assms(1) by (simp add: addressable_def)
  have le: "(n + 1) * ?w \<le> ?N * ?w"
    using assms(2) by (intro mult_le_mono1) simp
  have m: "(?N * ?w) mod 2 ^ 32 = ?N * ?w" "(n * ?w) mod 2 ^ 32 = n * ?w"
    "((n + 1) * ?w) mod 2 ^ 32 = (n + 1) * ?w"
    using top le by simp_all
  have d: "(n + 1) * ?w - n * ?w = ?w" by simp
  have "foldl (\<lambda>d i. d[(?N * ?w + i) mod 2 ^ 32 := d ! (n * ?w + i)]) (st_data s) [0..<?w]
      = foldl (\<lambda>d i. d[?N * ?w + i := d ! (n * ?w + i)]) (st_data s) [0..<?w]"
    using top by (intro foldl_cong) simp_all
  then show ?thesis
    unfolding fire_init_def Let_def m d by (simp add: use_state_def)
qed

lemma fire_init_nth:
  assumes "n < length (nodes s)" "addressable s"
  shows "st_data (fire_init n s) ! j =
     (if length (nodes s) * nr_words s \<le> j \<and> j < length (nodes s) * nr_words s + nr_words s
         \<and> j < length (st_data s)
      then st_data s ! (n * nr_words s + (j - length (nodes s) * nr_words s)) else st_data s ! j)"
proof -
  have "n * nr_words s + nr_words s \<le> length (nodes s) * nr_words s"
    using assms(1) by (metis Suc_leI mult_Suc mult_le_mono1 add.commute)
  then show ?thesis
    by (simp add: fire_init_plain[OF assms(2,1)] copy_words_nth)
qed


section \<open>The hash store\<close>

text \<open>The scratch slot: the words after the last stored state, where transitions are fired.\<close>
definition scratch :: "checker \<Rightarrow> u32 list" where
  "scratch s = state_words s (length (nodes s))"

lemma map_upt_shift: "map f [a..<a + n] = map (\<lambda>i. f (a + i)) [0..<n]"
  by (induction n) auto

lemma hash_cmp:
  assumes "ni \<noteq> 0" "beg \<le> ii" "ii \<le> beg + nr_words s" "jj = ni * nr_words s + (ii - beg)"
  shows "hash_search s beg (beg + nr_words s) ni ii jj =
     (if \<forall>i. ii - beg \<le> i \<and> i < nr_words s \<longrightarrow> st_data s ! (beg + i) = st_data s ! (ni * nr_words s + i)
      then Some ni
      else hash_search s beg (beg + nr_words s) (h_next (nodes s ! ni)) beg
                (h_next (nodes s ! ni) * nr_words s))"
  using assms
proof (induction "beg + nr_words s - ii" arbitrary: ii jj)
  case 0
  then show ?case by (subst hash_search.simps) auto
next
  case (Suc k)
  have lt: "ii < beg + nr_words s" using Suc.hyps(2) by simp
  show ?case
  proof (cases "st_data s ! ii = st_data s ! jj")
    case True
    have ih: "hash_search s beg (beg + nr_words s) ni (ii + 1) (jj + 1) =
     (if \<forall>i. (ii + 1) - beg \<le> i \<and> i < nr_words s \<longrightarrow> st_data s ! (beg + i) = st_data s ! (ni * nr_words s + i)
      then Some ni
      else hash_search s beg (beg + nr_words s) (h_next (nodes s ! ni)) beg
                (h_next (nodes s ! ni) * nr_words s))"
      using Suc.hyps(2) Suc.prems by (intro Suc.hyps(1)) auto
    have eq: "(\<forall>i. ii - beg \<le> i \<and> i < nr_words s \<longrightarrow> st_data s ! (beg + i) = st_data s ! (ni * nr_words s + i))
       \<longleftrightarrow> (\<forall>i. (ii + 1) - beg \<le> i \<and> i < nr_words s \<longrightarrow> st_data s ! (beg + i) = st_data s ! (ni * nr_words s + i))"
    proof -
      have "st_data s ! (beg + (ii - beg)) = st_data s ! (ni * nr_words s + (ii - beg))"
        using True Suc.prems by simp
      then show ?thesis
        by (metis Suc_eq_plus1 Suc_diff_le Suc.prems(2) le_antisym not_less_eq_eq Suc_leD)
    qed
    show ?thesis
      by (subst hash_search.simps) (simp add: lt Suc.prems(1) True ih eq del: One_nat_def)
  next
    case False
    have neg: "\<not> (\<forall>i. ii - beg \<le> i \<and> i < nr_words s \<longrightarrow> st_data s ! (beg + i) = st_data s ! (ni * nr_words s + i))"
      using False Suc.prems lt by (auto intro!: exI[of _ "ii - beg"])
    have step: "hash_search s beg (beg + nr_words s) ni ii jj =
        hash_search s beg (beg + nr_words s) (h_next (nodes s ! ni)) beg
                (h_next (nodes s ! ni) * nr_words s)"
      by (subst hash_search.simps) (simp add: lt Suc.prems(1) False)
    show ?thesis
      by (simp only: neg if_False step)
  qed
qed

lemma words_eq_iff:
  "(state_words s a = state_words s b) \<longleftrightarrow>
     (\<forall>i. i < nr_words s \<longrightarrow> st_data s ! (a * nr_words s + i) = st_data s ! (b * nr_words s + i))"
  by (auto simp add: state_words_def list_eq_iff_nth_eq)

lemma hash_search_step:
  "hash_search s (length (nodes s) * nr_words s) (length (nodes s) * nr_words s + nr_words s) ni
       (length (nodes s) * nr_words s) (ni * nr_words s) =
     (if ni = 0 then Some 0
      else if scratch s = state_words s ni then Some ni
      else hash_search s (length (nodes s) * nr_words s) (length (nodes s) * nr_words s + nr_words s)
             (h_next (nodes s ! ni)) (length (nodes s) * nr_words s)
             (h_next (nodes s ! ni) * nr_words s))"
proof (cases "ni = 0")
  case True
  then show ?thesis by (subst hash_search.simps) simp
next
  case False
  show ?thesis
    using hash_cmp[OF False, of "length (nodes s) * nr_words s" "length (nodes s) * nr_words s" s "ni * nr_words s"]
    by (simp add: False scratch_def words_eq_iff)
qed


text \<open>Node \<open>n\<close> is on the hash list that starts at node \<open>k\<close>.\<close>

inductive on_chain :: "checker \<Rightarrow> nat \<Rightarrow> nat \<Rightarrow> bool" for s where
  here: "k \<noteq> 0 \<Longrightarrow> on_chain s k k"
| further: "k \<noteq> 0 \<Longrightarrow> on_chain s (h_next (nodes s ! k)) n \<Longrightarrow> on_chain s k n"

text \<open>
  The invariant of the store: node 0 exists, the state data end with the scratch slot,
  every hash list runs through smaller and smaller indices, every stored state is on the
  list of its own hash value, and no state is stored twice.
\<close>

definition store_ok :: "config \<Rightarrow> checker \<Rightarrow> bool" where
  "store_ok cfg s \<longleftrightarrow>
     0 < length (nodes s) \<and>
     length (st_data s) = (length (nodes s) + 1) * nr_words s \<and>
     (\<forall>n. 0 < n \<and> n < length (nodes s) \<longrightarrow> h_next (nodes s ! n) < n) \<and>
     (\<forall>i. hash_tbl s i < length (nodes s)) \<and>
     (\<forall>n. 0 < n \<and> n < length (nodes s) \<longrightarrow>
          on_chain s (hash_tbl s (hash_value cfg (state_words s n))) n) \<and>
     (\<forall>a b. 0 < a \<and> a < length (nodes s) \<and> 0 < b \<and> b < length (nodes s) \<and>
          state_words s a = state_words s b \<longrightarrow> a = b)"

abbreviation search_from :: "checker \<Rightarrow> nat \<Rightarrow> nat option" where
  "search_from s k \<equiv>
     hash_search s (length (nodes s) * nr_words s) (length (nodes s) * nr_words s + nr_words s) k
       (length (nodes s) * nr_words s) (k * nr_words s)"

lemma on_chain_nonzero: "on_chain s k n \<Longrightarrow> k \<noteq> 0 \<and> n \<noteq> 0"
  by (induction rule: on_chain.induct) auto

lemma on_chain_bound:
  assumes "on_chain s k n" "\<forall>n. 0 < n \<and> n < length (nodes s) \<longrightarrow> h_next (nodes s ! n) < n"
    "k < length (nodes s)"
  shows "n \<le> k"
  using assms
proof (induction rule: on_chain.induct)
  case (here k)
  then show ?case by simp
next
  case (further k n)
  then have "h_next (nodes s ! k) < k" by simp
  with further show ?case by fastforce
qed

lemma search_found:
  assumes "on_chain s k n" "store_ok cfg s" "k < length (nodes s)"
    and "state_words s n = scratch s"
  shows "search_from s k = Some n"
  using assms
proof (induction rule: on_chain.induct)
  case (here k)
  then show ?case by (subst hash_search_step) simp
next
  case (further k n)
  have hk: "h_next (nodes s ! k) < k" using further.prems further.hyps(1) by (simp add: store_ok_def)
  have nk: "n \<le> h_next (nodes s ! k)"
    using on_chain_bound[OF further.hyps(2)] further.prems(1,2) hk by (simp add: store_ok_def)
  have n0: "n \<noteq> 0" using on_chain_nonzero[OF further.hyps(2)] by simp
  have "state_words s k \<noteq> scratch s"
  proof
    assume "state_words s k = scratch s"
    then have "state_words s k = state_words s n" using further.prems(3) by simp
    then have "k = n" using further.prems(1,2) further.hyps(1) nk hk n0
      unfolding store_ok_def by (metis (no_types, lifting) le_less_trans less_imp_le_nat neq0_conv)
    then show False using nk hk by simp
  qed
  then show ?case
    using further hk by (subst hash_search_step) auto
qed

lemma search_total:
  assumes "\<forall>n. 0 < n \<and> n < length (nodes s) \<longrightarrow> h_next (nodes s ! n) < n" "k < length (nodes s)"
  shows "\<exists>r. search_from s k = Some r \<and> r \<le> k \<and>
           (r \<noteq> 0 \<longrightarrow> state_words s r = scratch s)"
  using assms(2)
proof (induction k rule: less_induct)
  case (less k)
  show ?case
  proof (cases "k = 0")
    case True
    then show ?thesis by (subst hash_search_step) simp
  next
    case False
    show ?thesis
    proof (cases "scratch s = state_words s k")
      case True
      then show ?thesis using False by (subst hash_search_step) simp
    next
      case ne: False
      have hk: "h_next (nodes s ! k) < k" using assms(1) less.prems False by simp
      from less.IH[OF hk] hk less.prems
      obtain r where "search_from s (h_next (nodes s ! k)) = Some r" "r \<le> h_next (nodes s ! k)"
          "r \<noteq> 0 \<longrightarrow> state_words s r = scratch s"
        by auto
      then show ?thesis using False ne hk by (subst hash_search_step) auto
    qed
  qed
qed

lemma search_missing:
  assumes "store_ok cfg s" "k < length (nodes s)"
    and "\<forall>n. 0 < n \<and> n < length (nodes s) \<longrightarrow> state_words s n \<noteq> scratch s"
  shows "search_from s k = Some 0"
proof -
  from search_total[of s k] assms(1,2)
  obtain r where r: "search_from s k = Some r" "r \<le> k" "r \<noteq> 0 \<longrightarrow> state_words s r = scratch s"
    by (auto simp add: store_ok_def)
  have "r = 0"
  proof (rule ccontr)
    assume "r \<noteq> 0"
    then have "0 < r \<and> r < length (nodes s) \<and> state_words s r = scratch s"
      using r assms(2) by auto
    with assms(3) show False by blast
  qed
  with r show ?thesis by simp
qed

lemma scratch_alt:
  "map (\<lambda>ii. st_data s ! ii) [length (nodes s) * nr_words s..<length (nodes s) * nr_words s + nr_words s]
     = scratch s"
  by (simp add: scratch_def state_words_def map_upt_shift)

lemma hash_try_found:
  assumes "store_ok cfg s" "0 < n" "n < length (nodes s)" "state_words s n = scratch s"
  shows "hash_try cfg no_ins s = Some (n, s\<lparr>hash_was_new := False\<rparr>)"
proof -
  have oc: "on_chain s (hash_tbl s (hash_value cfg (scratch s))) n"
    using assms unfolding store_ok_def by metis
  have "search_from s (hash_tbl s (hash_value cfg (scratch s))) = Some n"
    using search_found[OF oc assms(1) _ assms(4)] assms(1) by (simp add: store_ok_def)
  then show ?thesis
    using assms(2) by (simp add: hash_try_def Let_def scratch_alt)
qed

lemma hash_try_missing:
  assumes "store_ok cfg s"
    and "\<forall>n. 0 < n \<and> n < length (nodes s) \<longrightarrow> state_words s n \<noteq> scratch s"
  shows "hash_try cfg True s = Some (0, s)"
proof -
  have "search_from s (hash_tbl s (hash_value cfg (scratch s))) = Some 0"
    using search_missing[OF assms(1) _ assms(2)] assms(1) by (simp add: store_ok_def)
  then show ?thesis
    by (simp add: hash_try_def Let_def scratch_alt)
qed


lemma on_chain_transfer:
  assumes "on_chain s k n"
    and "\<forall>j. 0 < j \<and> j < length (nodes s) \<longrightarrow> h_next (nodes s ! j) < j"
    and "k < length (nodes s)"
    and "\<forall>j. j < length (nodes s) \<longrightarrow> h_next (nodes s' ! j) = h_next (nodes s ! j)"
  shows "on_chain s' k n"
  using assms
proof (induction rule: on_chain.induct)
  case (here k)
  then show ?case by (simp add: on_chain.here)
next
  case (further k n)
  have hk: "h_next (nodes s ! k) < k" using further by simp
  then have "h_next (nodes s ! k) < length (nodes s)"
    using further.prems(2) by simp
  then have "on_chain s' (h_next (nodes s ! k)) n"
    using further by simp
  then have "on_chain s' (h_next (nodes s' ! k)) n"
    using further.prems by simp
  with further.hyps(1) show ?case by (rule on_chain.further)
qed

lemma state_words_cong:
  assumes "nr_words s' = nr_words s"
    and "\<forall>j. j < (n + 1) * nr_words s \<longrightarrow> st_data s' ! j = st_data s ! j"
  shows "state_words s' n = state_words s n"
proof -
  have "\<And>i. i < nr_words s \<Longrightarrow> n * nr_words s + i < (n + 1) * nr_words s" by simp
  then show ?thesis using assms by (simp add: state_words_def)
qed

lemma stored_words_cong:
  assumes "nr_words s' = nr_words s" "n < N"
    and "\<forall>j. j < N * nr_words s \<longrightarrow> st_data s' ! j = st_data s ! j"
  shows "state_words s' n = state_words s n"
proof -
  have "(n + 1) * nr_words s \<le> N * nr_words s"
    using assms(2) by (metis Suc_eq_plus1 Suc_leI mult_le_mono1)
  then show ?thesis
    using assms(1,3) by (intro state_words_cong) auto
qed

lemma store_ok_same:
  assumes ok: "store_ok cfg s"
    and "length (nodes s') = length (nodes s)"
    and hn: "\<forall>j. j < length (nodes s) \<longrightarrow> h_next (nodes s' ! j) = h_next (nodes s ! j)"
    and nw: "nr_words s' = nr_words s"
    and "length (st_data s') = length (st_data s)"
    and sd: "\<forall>j. j < length (nodes s) * nr_words s \<longrightarrow> st_data s' ! j = st_data s ! j"
    and "hash_tbl s' = hash_tbl s"
  shows "store_ok cfg s'"
proof -
  have w: "\<And>n. n < length (nodes s) \<Longrightarrow> state_words s' n = state_words s n"
    using stored_words_cong[OF nw _ sd] by simp
  have dec: "\<forall>j. 0 < j \<and> j < length (nodes s) \<longrightarrow> h_next (nodes s ! j) < j"
    using ok by (simp add: store_ok_def)
  have ch: "\<And>n. 0 < n \<Longrightarrow> n < length (nodes s) \<Longrightarrow>
      on_chain s' (hash_tbl s (hash_value cfg (state_words s n))) n"
  proof -
    fix n assume n: "0 < n" "n < length (nodes s)"
    have "on_chain s (hash_tbl s (hash_value cfg (state_words s n))) n"
      using ok n by (simp add: store_ok_def)
    then show "on_chain s' (hash_tbl s (hash_value cfg (state_words s n))) n"
      using ok by (intro on_chain_transfer[OF _ dec _ hn]) (simp_all add: store_ok_def)
  qed
  show ?thesis
    unfolding store_ok_def
  proof (intro conjI allI impI)
    show "0 < length (nodes s')" using ok assms(2) by (simp add: store_ok_def)
    show "length (st_data s') = (length (nodes s') + 1) * nr_words s'"
      using ok assms by (simp add: store_ok_def)
    show "\<And>n. 0 < n \<and> n < length (nodes s') \<Longrightarrow> h_next (nodes s' ! n) < n"
      using dec hn assms(2) by simp
    show "\<And>i. hash_tbl s' i < length (nodes s')"
      using ok assms by (simp add: store_ok_def)
    show "\<And>n. 0 < n \<and> n < length (nodes s') \<Longrightarrow>
        on_chain s' (hash_tbl s' (hash_value cfg (state_words s' n))) n"
      using ch w assms(2,7) by simp
    show "\<And>a b. 0 < a \<and> a < length (nodes s') \<and> 0 < b \<and> b < length (nodes s') \<and>
        state_words s' a = state_words s' b \<Longrightarrow> a = b"
      using ok w assms(2) unfolding store_ok_def by metis
  qed
qed

lemma store_ok_fire_init:
  assumes "store_ok cfg s" "n < length (nodes s)" "addressable s"
  shows "store_ok cfg (fire_init n s)"
  using assms by (intro store_ok_same[OF assms(1)]) (simp_all add: fire_init_nth)

lemma store_ok_put_state:
  assumes "store_ok cfg s" "state_nr s = length (nodes s)"
  shows "store_ok cfg (put_state ws s)"
  using assms
  by (intro store_ok_same[OF assms(1)]) (simp_all add: put_state_nth store_ok_def)

lemma store_ok_set_err:
  assumes "store_ok cfg s"
  shows "store_ok cfg (set_err e s)"
  by (intro store_ok_same[OF assms]) simp_all


text \<open>What an insertion by \<open>hash_try\<close> makes of the globals, in closed form.\<close>

definition store_new :: "config \<Rightarrow> checker \<Rightarrow> checker" where
  "store_new cfg s =
     s\<lparr>nodes := nodes s @ [zero_node\<lparr>h_next := hash_tbl s (hash_value cfg (scratch s))\<rparr>],
       st_data := st_data s @ replicate (nr_words s) 0,
       hash_tbl := (hash_tbl s)(hash_value cfg (scratch s) := length (nodes s)),
       hash_was_new := True\<rparr>"

lemma no_match_search:
  assumes "store_ok cfg s"
    and "\<forall>n. 0 < n \<and> n < length (nodes s) \<longrightarrow> state_words s n \<noteq> scratch s"
  shows "search_from s (hash_tbl s (hash_value cfg (scratch s))) = Some 0"
  using search_missing[OF assms(1) _ assms(2)] assms(1) by (simp add: store_ok_def)

lemma hash_try_full:
  assumes "store_ok cfg s"
    and "\<forall>n. 0 < n \<and> n < length (nodes s) \<longrightarrow> state_words s n \<noteq> scratch s"
    and "stop_count cfg < length (nodes s)"
  shows "hash_try cfg False s =
    Some (length (nodes s), s\<lparr>err_msg := Some ''Maximum number of states exceeded''\<rparr>)"
  using no_match_search[OF assms(1,2)] assms(3)
  by (simp add: hash_try_def Let_def scratch_alt)

lemma hash_try_new:
  assumes "store_ok cfg s"
    and "\<forall>n. 0 < n \<and> n < length (nodes s) \<longrightarrow> state_words s n \<noteq> scratch s"
    and "\<not> stop_count cfg < length (nodes s)" and "roomy s"
  shows "hash_try cfg False s = Some (length (nodes s), store_new cfg s)"
proof -
  have len: "length (st_data s) = (length (nodes s) + 1) * nr_words s"
    using assms(1) by (simp add: store_ok_def)
  have "resize (length (nodes s) + 1) zero_node (nodes s) = nodes s @ [zero_node]"
    by (simp add: resize_def)
  moreover have "((length (nodes s) + 2) * nr_words s) mod 2 ^ 32 = (length (nodes s) + 2) * nr_words s"
    using assms(4) by (simp add: roomy_def)
  moreover have "resize ((length (nodes s) + 2) * nr_words s) 0 (st_data s)
      = st_data s @ replicate (nr_words s) 0"
    by (simp add: resize_def len)
  ultimately show ?thesis
    using no_match_search[OF assms(1,2)] assms(3)
    by (simp add: hash_try_def Let_def scratch_alt store_new_def zero_node_def)
qed

lemma store_new_words:
  assumes "length (st_data s) = (length (nodes s) + 1) * nr_words s"
  shows "n < length (nodes s) \<Longrightarrow> state_words (store_new cfg s) n = state_words s n"
    and "state_words (store_new cfg s) (length (nodes s)) = scratch s"
proof -
  have nw: "nr_words (store_new cfg s) = nr_words s" by (simp add: store_new_def)
  have pre: "\<And>j. j < length (st_data s) \<Longrightarrow> st_data (store_new cfg s) ! j = st_data s ! j"
    by (simp add: store_new_def nth_append)
  show "state_words (store_new cfg s) (length (nodes s)) = scratch s"
    unfolding scratch_def
    by (rule state_words_cong[OF nw]) (simp add: pre assms)
  assume "n < length (nodes s)"
  then show "state_words (store_new cfg s) n = state_words s n"
    by (intro stored_words_cong[OF nw, of n "length (nodes s)"]) (simp_all add: pre assms)
qed

lemma store_ok_new:
  assumes ok: "store_ok cfg s"
    and nm: "\<forall>n. 0 < n \<and> n < length (nodes s) \<longrightarrow> state_words s n \<noteq> scratch s"
  shows "store_ok cfg (store_new cfg s)"
proof -
  let ?s = "store_new cfg s"
  let ?N = "length (nodes s)"
  let ?idx = "hash_value cfg (scratch s)"
  have len: "length (st_data s) = (?N + 1) * nr_words s"
    using ok by (simp add: store_ok_def)
  have N: "length (nodes ?s) = ?N + 1" by (simp add: store_new_def)
  have dec: "\<forall>j. 0 < j \<and> j < ?N \<longrightarrow> h_next (nodes s ! j) < j"
    using ok by (simp add: store_ok_def)
  have hb: "\<And>i. hash_tbl s i < ?N" using ok by (simp add: store_ok_def)
  have hn: "\<forall>j. j < ?N \<longrightarrow> h_next (nodes ?s ! j) = h_next (nodes s ! j)"
    by (simp add: store_new_def nth_append)
  have hN: "h_next (nodes ?s ! ?N) = hash_tbl s ?idx"
    by (simp add: store_new_def)
  have w: "\<And>n. n < ?N \<Longrightarrow> state_words ?s n = state_words s n"
    and wN: "state_words ?s ?N = scratch s"
    using store_new_words[OF len] by auto
  have N0: "?N \<noteq> 0" using ok by (simp add: store_ok_def)
  have tr: "\<And>k n. on_chain s k n \<Longrightarrow> k < ?N \<Longrightarrow> on_chain ?s k n"
    by (rule on_chain_transfer[OF _ dec _ hn])
  show ?thesis
    unfolding store_ok_def
  proof (intro conjI allI impI)
    show "0 < length (nodes ?s)" using N by simp
    show "length (st_data ?s) = (length (nodes ?s) + 1) * nr_words ?s"
      using len by (simp add: store_new_def)
    show "\<And>n. 0 < n \<and> n < length (nodes ?s) \<Longrightarrow> h_next (nodes ?s ! n) < n"
    proof -
      fix n assume n: "0 < n \<and> n < length (nodes ?s)"
      show "h_next (nodes ?s ! n) < n"
      proof (cases "n < ?N")
        case True
        then show ?thesis using dec hn n by simp
      next
        case False
        then have "n = ?N" using n N by simp
        then show ?thesis using hN hb by simp
      qed
    qed
    show "\<And>i. hash_tbl ?s i < length (nodes ?s)"
      using hb N by (simp add: store_new_def less_Suc_eq)
    show "\<And>n. 0 < n \<and> n < length (nodes ?s) \<Longrightarrow>
        on_chain ?s (hash_tbl ?s (hash_value cfg (state_words ?s n))) n"
    proof -
      fix n assume n: "0 < n \<and> n < length (nodes ?s)"
      show "on_chain ?s (hash_tbl ?s (hash_value cfg (state_words ?s n))) n"
      proof (cases "n < ?N")
        case True
        have oc: "on_chain s (hash_tbl s (hash_value cfg (state_words s n))) n"
          using ok n True by (simp add: store_ok_def)
        show ?thesis
        proof (cases "hash_value cfg (state_words s n) = ?idx")
          case same: True
          have "on_chain ?s (hash_tbl s ?idx) n"
            using tr[OF oc] hb same by simp
          then have "on_chain ?s (h_next (nodes ?s ! ?N)) n" using hN by simp
          with N0 have "on_chain ?s ?N n" by (rule on_chain.further)
          then show ?thesis using same w[OF True] by (simp add: store_new_def)
        next
          case False
          then show ?thesis using tr[OF oc] hb w[OF True] by (simp add: store_new_def)
        qed
      next
        case False
        then have "n = ?N" using n N by simp
        then show ?thesis using wN N0 by (simp add: store_new_def on_chain.here)
      qed
    qed
    show "\<And>a b. 0 < a \<and> a < length (nodes ?s) \<and> 0 < b \<and> b < length (nodes ?s) \<and>
        state_words ?s a = state_words ?s b \<Longrightarrow> a = b"
    proof -
      fix a b
      assume ab: "0 < a \<and> a < length (nodes ?s) \<and> 0 < b \<and> b < length (nodes ?s) \<and>
        state_words ?s a = state_words ?s b"
      have old: "\<And>a b. 0 < a \<Longrightarrow> a < ?N \<Longrightarrow> 0 < b \<Longrightarrow> b < ?N \<Longrightarrow>
          state_words s a = state_words s b \<Longrightarrow> a = b"
        using ok unfolding store_ok_def by blast
      consider "a < ?N" "b < ?N" | "a = ?N" "b < ?N" | "a < ?N" "b = ?N" | "a = ?N" "b = ?N"
        using ab N by force
      then show "a = b"
      proof cases
        case 1
        then show ?thesis using ab w old by simp
      next
        case 2
        then have "state_words s b = scratch s" using ab w wN by simp
        then show ?thesis using nm ab 2 by blast
      next
        case 3
        then have "state_words s a = scratch s" using ab w wN by simp
        then show ?thesis using nm ab 3 by blast
      next
        case 4
        then show ?thesis by simp
      qed
    qed
  qed
qed

text \<open>Every call of \<open>hash_try\<close> on a well-formed store returns, and leaves it well-formed.\<close>

lemma hash_try_ok:
  assumes "store_ok cfg s" "no_ins \<or> roomy s"
  shows "\<exists>n s'. hash_try cfg no_ins s = Some (n, s') \<and> store_ok cfg s' \<and>
           length (nodes s) \<le> length (nodes s')"
proof (cases "\<exists>n. 0 < n \<and> n < length (nodes s) \<and> state_words s n = scratch s")
  case True
  then obtain n where n: "0 < n" "n < length (nodes s)" "state_words s n = scratch s" by auto
  have "store_ok cfg (s\<lparr>hash_was_new := False\<rparr>)"
    by (rule store_ok_same[OF assms(1)]) simp_all
  then show ?thesis using hash_try_found[OF assms(1) n] by simp
next
  case False
  then have nm: "\<forall>n. 0 < n \<and> n < length (nodes s) \<longrightarrow> state_words s n \<noteq> scratch s" by auto
  show ?thesis
  proof (cases no_ins)
    case True
    then show ?thesis using hash_try_missing[OF assms(1) nm] assms by simp
  next
    case ins: False
    show ?thesis
    proof (cases "stop_count cfg < length (nodes s)")
      case True
      have "store_ok cfg (s\<lparr>err_msg := Some ''Maximum number of states exceeded''\<rparr>)"
        by (rule store_ok_same[OF assms(1)]) simp_all
      then show ?thesis using hash_try_full[OF assms(1) nm True] ins by simp
    next
      case False
      have "roomy s" using assms(2) ins by simp
      then show ?thesis
        using hash_try_new[OF assms(1) nm False] store_ok_new[OF assms(1) nm] ins
        by (simp add: store_new_def)
    qed
  qed
qed


text \<open>
  Printing changes only the current-state number, the flag \<open>reported\<close> and the output.
\<close>

definition view_only :: "checker \<Rightarrow> checker \<Rightarrow> bool" where
  "view_only s s' \<longleftrightarrow>
     err_msg s' = err_msg s \<and> st_data s' = st_data s \<and> started s' = started s \<and>
     nr_words s' = nr_words s \<and> tot_bits s' = tot_bits s \<and> nr_trans s' = nr_trans s \<and>
     nodes s' = nodes s \<and> nr_edges s' = nr_edges s \<and> hash_tbl s' = hash_tbl s \<and>
     hash_was_new s' = hash_was_new s \<and> bss_second s' = bss_second s \<and> iedges s' = iedges s"

lemma view_only_refl [simp]: "view_only s s"
  by (simp add: view_only_def)

lemma view_only_trans: "view_only s s' \<Longrightarrow> view_only s' s'' \<Longrightarrow> view_only s s''"
  by (simp add: view_only_def)

lemma print_history_view:
  assumes "print_history ni s = Some s'"
  shows "view_only s s'"
proof (rule print_history.raw_induct[where P = "\<lambda>ni s s'. view_only s s'", OF _ assms], goal_cases)
  case (1 ph ni s s')
  show ?case
  proof (cases "ni = 0")
    case True
    then show ?thesis using 1(2) by simp
  next
    case False
    then obtain s1 where a: "ph (prev (nodes s ! ni)) s = Some s1"
      and b: "s' = show_state (use_state ni s1)"
      using 1(2) by (auto simp add: bind_eq_Some_conv)
    have "view_only s s1" using 1(1)[OF a] .
    then show ?thesis unfolding b by (simp add: view_only_def)
  qed
qed

lemma print_history_reported:
  assumes "print_history ni s = Some s'"
  shows "reported s' = reported s"
proof (rule print_history.raw_induct[where P = "\<lambda>ni s s'. reported s' = reported s", OF _ assms], goal_cases)
  case (1 ph ni s s')
  then show ?case
    by (auto simp add: bind_eq_Some_conv show_state_def use_state_def split: if_splits)
qed

lemma report_error_view:
  "report_error ni msg s = Some s' \<Longrightarrow> view_only s s'"
  by (auto simp add: report_error_def bind_eq_Some_conv view_only_def
      dest!: print_history_view split: if_splits)

lemma report_error_reported:
  "report_error ni msg s = Some s' \<Longrightarrow> reported s'"
  by (auto simp add: report_error_def bind_eq_Some_conv
      dest!: print_history_reported split: if_splits)

lemma store_ok_view:
  assumes "store_ok cfg s" "view_only s s'"
  shows "store_ok cfg s'"
  using assms(2) by (intro store_ok_same[OF assms(1)]) (simp_all add: view_only_def)

lemma store_ok_upd_node:
  assumes "store_ok cfg s" "\<And>nd. h_next (f nd) = h_next nd"
  shows "store_ok cfg (upd_node i f s)"
  by (intro store_ok_same[OF assms(1)]) (simp_all add: upd_node_nth assms(2))

lemma store_ok_empty:
  assumes "length (nodes s) = 1" "length (st_data s) = 2 * nr_words s" "\<forall>i. hash_tbl s i = 0"
  shows "store_ok cfg s"
  using assms by (auto simp add: store_ok_def)


lemma symmetry_fields [simp]:
  "started (symmetry m s) = started s"
  "nr_words (symmetry m s) = nr_words s" "tot_bits (symmetry m s) = tot_bits s"
  "state_nr (symmetry m s) = state_nr s" "nr_trans (symmetry m s) = nr_trans s"
  "nodes (symmetry m s) = nodes s" "nr_edges (symmetry m s) = nr_edges s"
  "hash_tbl (symmetry m s) = hash_tbl s" "hash_was_new (symmetry m s) = hash_was_new s"
  "reported (symmetry m s) = reported s" "bss_second (symmetry m s) = bss_second s"
  "iedges (symmetry m s) = iedges s" "out (symmetry m s) = out s"
  "length (st_data (symmetry m s)) = length (st_data s)"
  by (simp_all add: symmetry_def split: option.splits prod.splits)

lemma fire_fields [simp]:
  "started (snd (fire m tr s)) = started s"
  "nr_words (snd (fire m tr s)) = nr_words s" "tot_bits (snd (fire m tr s)) = tot_bits s"
  "state_nr (snd (fire m tr s)) = state_nr s" "nr_trans (snd (fire m tr s)) = nr_trans s"
  "nodes (snd (fire m tr s)) = nodes s" "nr_edges (snd (fire m tr s)) = nr_edges s"
  "hash_tbl (snd (fire m tr s)) = hash_tbl s" "hash_was_new (snd (fire m tr s)) = hash_was_new s"
  "reported (snd (fire m tr s)) = reported s" "bss_second (snd (fire m tr s)) = bss_second s"
  "iedges (snd (fire m tr s)) = iedges s" "out (snd (fire m tr s)) = out s"
  "length (st_data (snd (fire m tr s))) = length (st_data s)"
  by (simp_all add: fire_def split: prod.splits)


lemma store_ok_fire:
  assumes "store_ok cfg s" "state_nr s = length (nodes s)"
  shows "store_ok cfg (snd (fire m tr s))"
  using assms
  by (auto simp add: fire_def store_ok_set_err store_ok_put_state split: prod.splits)

lemma zero_words_length [simp]:
  "length (foldl (\<lambda>d ii. d[ii := z]) d0 is) = length d0"
  by (induction "is" arbitrary: d0) auto

lemma resize_length [simp]: "length (resize n z xs) = n"
  by (simp add: resize_def)

lemma store_initial_state_ok:
  assumes "store_initial_state cfg m s = Some (Inr s')" "\<forall>i. hash_tbl s i = 0"
    and "3 * nr_words s < 2 ^ 32"
  shows "store_ok cfg s' \<and> 1 < length (nodes s')"
proof -
  have md: "(2 * nr_words s) mod 4294967296 = 2 * nr_words s" using assms(3) by simp
  define s3 where "s3 = use_state 1 ((s\<lparr>started := True, nodes := resize 1 zero_node (nodes s),
                  st_data := resize (2 * nr_words s) 0 (st_data s)\<rparr>)
           \<lparr>st_data := foldl (\<lambda>d ii. d[ii := 0]) (resize (2 * nr_words s) 0 (st_data s))
                                 [nr_words s..<2 * nr_words s]\<rparr>)"
  obtain n ws e where nt: "nr_transitions m (cur_state s3) = (n, ws, e)"
    by (cases "nr_transitions m (cur_state s3)") auto
  define s5 where "s5 = symmetry m ((set_err e (put_state ws s3))\<lparr>nr_trans := n\<rparr>)"
  have ok5: "store_ok cfg s5"
    using assms(2) by (intro store_ok_empty) (simp_all add: s5_def s3_def)
  have "roomy s5" using assms(3) by (simp add: roomy_def s5_def s3_def)
  then obtain ni s6 where h: "hash_insert cfg s5 = Some (ni, s6)" and ok6: "store_ok cfg s6"
    using hash_try_ok[OF ok5, of False] by (auto simp add: hash_insert_def)
  have ok7: "store_ok cfg (upd_node 1 (\<lambda>nd. nd\<lparr>prev := 0\<rparr>) s6)"
    by (rule store_ok_upd_node[OF ok6]) simp
  have ok8: "\<And>x. store_ok cfg ((upd_node 1 (\<lambda>nd. nd\<lparr>prev := 0\<rparr>) s6)\<lparr>err_msg := x\<rparr>)"
    by (rule store_ok_same[OF ok7]) simp_all
  have eq: "store_initial_state cfg m s =
     (if length (nodes s6) \<le> 1 then Some (Inl (Node_out_of_range 1, s6))
              else
                let s7 = upd_node 1 (\<lambda>nd. nd\<lparr>prev := 0\<rparr>) s6 in
                if err_msg s7 \<noteq> None then
                  Option.bind (report_error 1 ''Initialization error'' s7) (\<lambda>s8. Some (Inr s8))
                else if nr_trans s7 = all_ones then
                  Option.bind (report_error 0 ''Too many transitions'' (s7\<lparr>err_msg := Some []\<rparr>))
                    (\<lambda>s8. Some (Inr s8))
                else
                  (case check_state m of
                     None \<Rightarrow> Some (Inr s7)
                   | Some chk \<Rightarrow>
                       let s8 = s7\<lparr>err_msg := chk (cur_state s7)\<rparr> in
                       if err_msg s8 \<noteq> None then
                         Option.bind (report_error 1 ''Safety error'' s8) (\<lambda>s9. Some (Inr s9))
                       else Some (Inr s8)))"
    using h nt by (simp add: store_initial_state_def Let_def s5_def s3_def md)
  have len: "1 < length (nodes s6)"
    using assms(1) unfolding eq by (auto split: if_splits)
  have "store_ok cfg s'"
    using assms(1) ok7 ok8 unfolding eq
    by (auto simp add: Let_def bind_eq_Some_conv split: if_splits option.splits
        dest!: report_error_view intro: store_ok_view)
  moreover have "length (nodes s') = length (nodes s6)"
    using assms(1) unfolding eq
    by (auto simp add: Let_def bind_eq_Some_conv view_only_def split: if_splits option.splits
        dest!: report_error_view)
  ultimately show ?thesis using len by simp
qed


section \<open>The transition relation that the checker explores\<close>



text \<open>The stored node that holds the given words, or 0.\<close>

definition node_of :: "checker \<Rightarrow> u32 list \<Rightarrow> nat" where
  "node_of s ws =
     (case find (\<lambda>n. state_words s n = ws) [1..<length (nodes s)] of
        Some n \<Rightarrow> n | None \<Rightarrow> 0)"



lemma node_of_range: "node_of s ws < max 1 (length (nodes s))"
  by (auto simp add: node_of_def split: option.splits dest!: find_Some_iff[THEN iffD1])

lemma node_of_words: "node_of s ws \<noteq> 0 \<Longrightarrow> state_words s (node_of s ws) = ws"
  by (auto simp add: node_of_def split: option.splits dest!: find_Some_iff[THEN iffD1])

lemma node_of_zero:
  "node_of s ws = 0 \<longleftrightarrow> (\<forall>n. 0 < n \<and> n < length (nodes s) \<longrightarrow> state_words s n \<noteq> ws)"
proof
  assume "node_of s ws = 0"
  then have "find (\<lambda>n. state_words s n = ws) [1..<length (nodes s)] = None"
    by (auto simp add: node_of_def split: option.splits dest!: find_Some_iff[THEN iffD1])
  then show "\<forall>n. 0 < n \<and> n < length (nodes s) \<longrightarrow> state_words s n \<noteq> ws"
    by (auto simp add: find_None_iff)
next
  assume a: "\<forall>n. 0 < n \<and> n < length (nodes s) \<longrightarrow> state_words s n \<noteq> ws"
  then have "find (\<lambda>n. state_words s n = ws) [1..<length (nodes s)] = None"
    by (auto simp add: find_None_iff)
  then show "node_of s ws = 0" by (simp add: node_of_def)
qed

lemma node_of_eq:
  assumes "store_ok cfg s" "0 < n" "n < length (nodes s)" "state_words s n = ws"
  shows "node_of s ws = n"
proof -
  have nz: "node_of s ws \<noteq> 0" using assms(2,3,4) by (auto simp add: node_of_zero)
  then have "state_words s (node_of s ws) = state_words s n"
    using node_of_words assms(4) by simp
  moreover have "node_of s ws < length (nodes s)"
    using node_of_range[of s ws] assms(3) by simp
  ultimately show ?thesis using assms(1,2,3) nz unfolding store_ok_def by (metis neq0_conv)
qed

text \<open>\<open>hash_find\<close> computes \<open>node_of\<close> for the state in the scratch slot.\<close>

lemma hash_find_node_of:
  assumes "store_ok cfg s"
  shows "\<exists>s'. hash_find cfg s = Some (node_of s (scratch s), s') \<and>
           (s' = s \<or> s' = s\<lparr>hash_was_new := False\<rparr>)"
proof (cases "node_of s (scratch s) = 0")
  case True
  then show ?thesis
    using hash_try_missing[OF assms] by (simp add: node_of_zero hash_find_def)
next
  case False
  have "hash_try cfg True s = Some (node_of s (scratch s), s\<lparr>hash_was_new := False\<rparr>)"
    using False node_of_words[OF False] node_of_range[of s "scratch s"]
    by (intro hash_try_found[OF assms]) auto
  then show ?thesis by (simp add: hash_find_def)
qed











section \<open>A small model for concrete runs\<close>

text \<open>
  A model without declared variables (one reserved word per state) and two transitions:
  transition 0 takes the state with word 0 to the state with word 1, transition 1 takes it
  back. The state with word 0 is the only progress state.
\<close>

definition toy_cfg :: config where
  "toy_cfg = \<lparr>hash_bits = 4, stop_count = 100, try_forward = False, dl_not_may = False,
     dl_not_must = False, sanity_chk = True, only_typical = False\<rparr>"

definition toy_model :: model where
  "toy_model = \<lparr>
     nr_transitions = (\<lambda>ws. (2, ws, None)),
     fire_transition = (\<lambda>tr ws. if tr = 0 \<and> ws = [0] then (True, [1], None)
                                 else if tr = 1 \<and> ws = [1] then (True, [0], None)
                                 else (False, ws, None)),
     check_state = None, check_deadlock = None,
     is_may_progress = Some (\<lambda>ws. (ws = [0], None)),
     is_must_progress = Some (\<lambda>ws. (ws = [0], None)),
     symmetry_representative = None\<rparr>"

text \<open>A call that returned normally, and the globals it returned.\<close>

definition run_ok :: "checker run \<Rightarrow> bool" where
  "run_ok r = (case r of Some (Inr s) \<Rightarrow> True | _ \<Rightarrow> False)"

definition run_result :: "checker run \<Rightarrow> checker" where
  "run_result r = (case r of Some (Inr s) \<Rightarrow> s | _ \<Rightarrow> initial_checker)"

lemma run_ok_result: "run_ok r \<Longrightarrow> r = Some (Inr (run_result r))"
  by (auto simp add: run_ok_def run_result_def split: option.splits sum.splits)

text \<open>The globals after \<open>store_initial_state\<close>, and with state 1 copied to the scratch slot.\<close>

definition toy_initial :: checker where
  "toy_initial = run_result (store_initial_state toy_cfg toy_model initial_checker)"

definition toy_fresh :: checker where
  "toy_fresh = fire_init 1 toy_initial"

text \<open>The globals after transition 0 has been fired there: the scratch slot holds a new state.\<close>

definition toy_fired :: checker where
  "toy_fired = snd (fire toy_model 0 toy_fresh)"

lemma toy_initial_run_ok:
  "run_ok (store_initial_state toy_cfg toy_model initial_checker)"
  by code_simp

lemma toy_initial_ok: "store_ok toy_cfg toy_initial \<and> 1 < length (nodes toy_initial)"
proof -
  have "\<forall>i. hash_tbl initial_checker i = 0"
    by (simp add: initial_checker_def)
  moreover have "store_initial_state toy_cfg toy_model initial_checker = Some (Inr toy_initial)"
    unfolding toy_initial_def by (rule run_ok_result[OF toy_initial_run_ok])
  moreover have "3 * nr_words initial_checker < 2 ^ 32"
    by (simp add: initial_checker_def)
  ultimately show ?thesis
    using store_initial_state_ok[of toy_cfg toy_model initial_checker toy_initial] by blast
qed

lemma toy_initial_small: "roomy toy_initial \<and> addressable toy_initial"
  by code_simp


section \<open>Looking up and inserting states\<close>

lemma state_words_fire_init:
  assumes "n < length (nodes s)" "k < length (nodes s)" "addressable s"
  shows "state_words (fire_init n s) k = state_words s k"
  using assms
  by (intro stored_words_cong[of _ _ k "length (nodes s)"]) (simp_all add: fire_init_nth)

lemma scratch_fire_init:
  assumes "n < length (nodes s)" "length (st_data s) = (length (nodes s) + 1) * nr_words s"
    and "addressable s"
  shows "scratch (fire_init n s) = state_words s n"
  using assms by (simp add: scratch_def state_words_def fire_init_nth)

text \<open>
  Claim C6, as amended. On a well-formed store, for the state in the scratch slot:
  if a stored node has the same words, \<open>hash_try\<close> returns the index of that node and
  sets \<open>hash_was_new\<close> to false, whatever \<open>no_ins\<close> is; if no stored node has the
  same words and \<open>no_ins\<close> is true, it returns 0 and changes nothing, so \<open>hash_was_new\<close>
  keeps the value it had.
\<close>

theorem hash_try_lookup:
  assumes "store_ok cfg s"
  shows "(\<forall>n. 0 < n \<and> n < length (nodes s) \<and> state_words s n = scratch s \<longrightarrow>
            hash_try cfg no_ins s = Some (n, s\<lparr>hash_was_new := False\<rparr>)) \<and>
         ((\<forall>n. 0 < n \<and> n < length (nodes s) \<longrightarrow> state_words s n \<noteq> scratch s) \<longrightarrow>
            hash_try cfg True s = Some (0, s))"
  using hash_try_found[OF assms] hash_try_missing[OF assms] by blast

theorem hash_try_lookup_witness:
  "store_ok toy_cfg toy_fresh \<and> 1 < length (nodes toy_fresh) \<and>
   state_words toy_fresh 1 = scratch toy_fresh \<and>
   hash_try toy_cfg False toy_fresh = Some (1, toy_fresh\<lparr>hash_was_new := False\<rparr>) \<and>
   store_ok toy_cfg toy_fired \<and> length (nodes toy_fired) = 2 \<and>
   state_words toy_fired 1 \<noteq> scratch toy_fired \<and>
   hash_try toy_cfg True toy_fired = Some (0, toy_fired)"
proof -
  have ok: "store_ok toy_cfg toy_fresh" and len: "1 < length (nodes toy_fresh)"
    using toy_initial_ok toy_initial_small by (simp_all add: toy_fresh_def store_ok_fire_init)
  have w: "state_words toy_fresh 1 = scratch toy_fresh"
    using toy_initial_ok toy_initial_small
    by (simp add: toy_fresh_def scratch_fire_init state_words_fire_init store_ok_def)
  have ok2: "store_ok toy_cfg toy_fired"
    unfolding toy_fired_def by (rule store_ok_fire[OF ok]) (simp add: toy_fresh_def)
  have len2: "length (nodes toy_fired) = 2" by code_simp
  have w2: "state_words toy_fired 1 \<noteq> scratch toy_fired" by code_simp
  have nm: "\<forall>n. 0 < n \<and> n < length (nodes toy_fired) \<longrightarrow> state_words toy_fired n \<noteq> scratch toy_fired"
  proof (intro allI impI)
    fix n assume "0 < n \<and> n < length (nodes toy_fired)"
    then have "n = 1" using len2 by simp
    then show "state_words toy_fired n \<noteq> scratch toy_fired" using w2 by simp
  qed
  show ?thesis
    using hash_try_lookup[OF ok, of False] hash_try_lookup[OF ok2, of True] len w len2 w2 nm ok ok2
    by simp
qed

text \<open>
  Claim C6 as stated fails in its last part: after a miss with \<open>no_ins = true\<close> the flag
  \<open>hash_was_new\<close> is not false but whatever it was. Here it is still true from the
  insertion of the initial state.
\<close>

theorem hash_find_miss_keeps_flag:
  "length (nodes toy_fired) = 2 \<and> state_words toy_fired 1 \<noteq> scratch toy_fired \<and>
   hash_was_new toy_fired \<and>
   (case hash_try toy_cfg True toy_fired of
      Some (n, s') \<Rightarrow> n = 0 \<and> hash_was_new s'
    | None \<Rightarrow> False)"
  by code_simp









section \<open>The walk of a typical sequence\<close>

text \<open>Two global states with the same node table and the same stored states.\<close>

definition same_graph :: "checker \<Rightarrow> checker \<Rightarrow> bool" where
  "same_graph s s' \<longleftrightarrow>
     nodes s' = nodes s \<and> nr_words s' = nr_words s \<and> nr_trans s' = nr_trans s \<and>
     (\<forall>k. k < length (nodes s) \<longrightarrow> state_words s' k = state_words s k)"

lemma same_graph_refl [simp]: "same_graph s s"
  by (simp add: same_graph_def)




























text \<open>
  A model with three states 0, 1 and 2: transition 0 leads from 0 to 1 and from 1 to 0,
  transition 1 leads from 1 to 2 and from 2 to 2. State 0 is the only must-progress
  state. Breadth-first construction numbers the states 0, 1, 2 as nodes 1, 2, 3.
\<close>

definition lasso_model :: model where
  "lasso_model = \<lparr>
     nr_transitions = (\<lambda>ws. (2, ws, None)),
     fire_transition = (\<lambda>tr ws. if tr = 0 \<and> ws = [0] then (True, [1], None)
                                 else if tr = 0 \<and> ws = [1] then (True, [0], None)
                                 else if tr = 1 \<and> ws = [1] then (True, [2], None)
                                 else if tr = 1 \<and> ws = [2] then (True, [2], None)
                                 else (False, ws, None)),
     check_state = None, check_deadlock = None,
     is_may_progress = None,
     is_must_progress = Some (\<lambda>ws. (ws = [0], None)),
     symmetry_representative = None\<rparr>"

text \<open>
  The globals of that model after the state space and the incoming edges have been
  constructed and round 1 of \<open>verify_progress\<close> has propagated its numbers; then with
  node 2, the first node left with a number that is not 0, marked by \<open>print_typical\<close> and
  copied to the scratch slot.
\<close>

definition lasso_edges :: checker where
  "lasso_edges =
     run_result (construct_input_edges toy_cfg lasso_model
       (run_result (build_state_space toy_cfg lasso_model
          (run_result (store_initial_state toy_cfg lasso_model initial_checker)))))"





section \<open>The error message slot\<close>

text \<open>The reporter prints once: a later call changes nothing.\<close>

lemma report_error_once:
  "report_error ni msg s = Some s' \<Longrightarrow> reported s' \<and> (reported s \<longrightarrow> s' = s)"
  using report_error_reported[of ni msg s s'] by (auto simp add: report_error_def)

text \<open>The reporter never changes \<open>err_msg\<close>.\<close>

lemma report_error_err_msg: "report_error ni msg s = Some s' \<Longrightarrow> err_msg s' = err_msg s"
  by (auto dest!: report_error_view simp add: view_only_def)

text \<open>
  The small model with \<open>check_state\<close> and \<open>check_deadlock\<close> defined (both always
  content) and a \<open>symmetry_representative\<close> that declares an error for the state with
  word 1, as an assignment of an out-of-range value there would.
\<close>

definition noisy_model :: model where
  "noisy_model = toy_model\<lparr>
     check_state := Some (\<lambda>ws. None), check_deadlock := Some (\<lambda>ws. None),
     is_may_progress := None, is_must_progress := None,
     symmetry_representative :=
       Some (\<lambda>ws. if ws = [1] then (ws, Some ''Assigned an out of range value to a variable'')
                   else (ws, None))\<rparr>"

definition noisy_fresh :: checker where
  "noisy_fresh =
     fire_init 1 (run_result (store_initial_state toy_cfg noisy_model initial_checker))"

text \<open>
  Claim C7 fails on the code. When \<open>try_transition\<close> fires transition 0 from the
  initial state, \<open>symmetry_representative\<close> sets \<open>err_msg\<close>; the state is new, and
  \<open>err_msg = model::check_state()\<close> then replaces the message by the null pointer. The
  whole run ends without an error and without a report.
\<close>

theorem first_error_lost:
  "(let s = noisy_fresh in
    err_msg s = None \<and>
    err_msg (symmetry noisy_model (snd (fire noisy_model 0 s)))
      = Some ''Assigned an out of range value to a variable'' \<and>
    (case try_transition toy_cfg noisy_model 1 0 s of
       Some (Inr (fired, s')) \<Rightarrow> fired \<and> err_msg s' = None \<and> \<not> reported s'
     | _ \<Rightarrow> False)) \<and>
   (case main toy_cfg noisy_model initial_checker of
      Some (Inr s) \<Rightarrow> err_msg s = None \<and> \<not> reported s \<and> length (nodes s) = 3 \<and>
         out s = [Print_counts 2 2, Print_settings ''Settings: state dl symm hash_bits='' 4]
    | _ \<Rightarrow> False)"
  by code_simp


section \<open>The backward propagation of \<open>verify_progress\<close>\<close>

text \<open>
  The incoming edges of node \<open>b\<close> as \<open>verify_progress\<close> reads them: the sources at the
  positions from \<open>nodes[b-1].ie_end\<close> up to \<open>nodes[b].ie_end\<close> of \<open>iedges\<close>.
\<close>

definition slice :: "checker \<Rightarrow> nat \<Rightarrow> nat list" where
  "slice s b = map (\<lambda>ei. iedges s ! ei) [ie_end (nodes s ! (b - 1))..<ie_end (nodes s ! b)]"

definition edge :: "checker \<Rightarrow> nat \<Rightarrow> nat \<Rightarrow> bool" where
  "edge s a b \<longleftrightarrow> 0 < b \<and> b < length (nodes s) \<and> a \<in> set (slice s b)"

text \<open>The number of edges from \<open>a\<close> to the nodes in \<open>D\<close>, each counted as often as it occurs.\<close>

definition into :: "checker \<Rightarrow> nat set \<Rightarrow> nat \<Rightarrow> nat" where
  "into s D a = (\<Sum>b\<in>D. count_list (slice s b) a)"

text \<open>
  The structure that \<open>construct_input_edges\<close> leaves: the cursors rise from 0 to
  \<open>nr_edges\<close>, and every cell of \<open>iedges\<close> holds a node.
\<close>

definition edges_ok :: "checker \<Rightarrow> bool" where
  "edges_ok s \<longleftrightarrow>
     0 < length (nodes s) \<and> length (iedges s) = nr_edges s \<and>
     ie_end (nodes s ! 0) = 0 \<and> ie_end (nodes s ! (length (nodes s) - 1)) = nr_edges s \<and>
     (\<forall>b. 0 < b \<and> b < length (nodes s) \<longrightarrow> ie_end (nodes s ! (b - 1)) \<le> ie_end (nodes s ! b)) \<and>
     (\<forall>ei. ei < nr_edges s \<longrightarrow> 0 < iedges s ! ei \<and> iedges s ! ei < length (nodes s))"

text \<open>
  The nodes whose number reaches 0: \<open>c a\<close> is the number of node \<open>a\<close> before the
  propagation, and a node is discharged when at least \<open>c a\<close> of its edges lead to
  discharged nodes.
\<close>

inductive discharged :: "checker \<Rightarrow> (nat \<Rightarrow> nat) \<Rightarrow> nat \<Rightarrow> bool" for s c where
  "0 < a \<Longrightarrow> a < length (nodes s) \<Longrightarrow> finite D \<Longrightarrow> \<forall>b\<in>D. discharged s c b \<Longrightarrow>
   c a \<le> into s D a \<Longrightarrow> discharged s c a"

abbreviation ec :: "checker \<Rightarrow> nat \<Rightarrow> nat" where
  "ec s a \<equiv> e_cnt (nodes s ! a)"

abbreviation pn :: "checker \<Rightarrow> nat \<Rightarrow> nat" where
  "pn s a \<equiv> p_next (nodes s ! a)"

text \<open>Two global states that differ at most in \<open>e_cnt\<close> and \<open>p_next\<close> of their nodes.\<close>

definition same_edges :: "checker \<Rightarrow> checker \<Rightarrow> bool" where
  "same_edges s s' \<longleftrightarrow>
     length (nodes s') = length (nodes s) \<and> iedges s' = iedges s \<and> nr_edges s' = nr_edges s \<and>
     (\<forall>n. ie_end (nodes s' ! n) = ie_end (nodes s ! n))"

lemma same_edges_refl [simp]: "same_edges s s"
  by (simp add: same_edges_def)

lemma same_edges_trans: "same_edges s s' \<Longrightarrow> same_edges s' s'' \<Longrightarrow> same_edges s s''"
  by (simp add: same_edges_def)

lemma same_edges_slice: "same_edges s s' \<Longrightarrow> slice s' b = slice s b"
  by (simp add: same_edges_def slice_def)

lemma same_edges_upd_node:
  "(\<And>nd. ie_end (f nd) = ie_end nd) \<Longrightarrow> same_edges s (upd_node i f s)"
  by (simp add: same_edges_def upd_node_nth)

text \<open>The progress search list that starts at \<open>p\<close>.\<close>

inductive plist :: "checker \<Rightarrow> nat \<Rightarrow> nat list \<Rightarrow> bool" for s where
  "plist s 0 []"
| "p \<noteq> 0 \<Longrightarrow> plist s (pn s p) xs \<Longrightarrow> plist s p (p # xs)"

lemma plist_cong:
  assumes "plist s p xs" "\<forall>x\<in>set xs. pn s' x = pn s x"
  shows "plist s' p xs"
  using assms
proof (induction rule: plist.induct)
  case 1
  then show ?case by (simp add: plist.intros)
next
  case (2 p xs)
  then have "plist s' (pn s' p) xs" by simp
  with 2(1) show ?case by (rule plist.intros)
qed

lemma plist_hd: "plist s p (x # xs) \<Longrightarrow> x = p \<and> p \<noteq> 0 \<and> plist s (pn s p) xs"
  by (auto elim: plist.cases)

lemma plist_zero: "plist s 0 xs \<Longrightarrow> xs = []"
  by (auto elim: plist.cases)

lemma plist_nonzero: "plist s p xs \<Longrightarrow> p \<noteq> 0 \<Longrightarrow> \<exists>ys. xs = p # ys"
  by (auto elim: plist.cases)


lemma vp_edge_same: "same_edges s (vp_edge p s ei)"
  by (simp add: vp_edge_def Let_def same_edges_def upd_node_nth)

lemma vp_edge_ec:
  assumes "iedges s ! ei < length (nodes s)"
  shows "ec (vp_edge p s ei) x = (if x = iedges s ! ei then ec s x - 1 else ec s x)"
  using assms by (auto simp add: vp_edge_def Let_def upd_node_nth)

lemma vp_edge_pn:
  assumes "iedges s ! ei < length (nodes s)" "p < length (nodes s)" "ec s p = 0"
  shows "pn (vp_edge p s ei) x =
     (if ec s (iedges s ! ei) = 1
      then (if x = p then iedges s ! ei else if x = iedges s ! ei then pn s p else pn s x)
      else pn s x)"
  using assms by (auto simp add: vp_edge_def Let_def upd_node_nth)

text \<open>The invariant of the propagation.\<close>

definition wave_inv ::
    "checker \<Rightarrow> (nat \<Rightarrow> nat) \<Rightarrow> checker \<Rightarrow> nat set \<Rightarrow> (nat \<Rightarrow> nat) \<Rightarrow> nat \<Rightarrow> nat list \<Rightarrow> bool" where
  "wave_inv s0 c s D d p xs \<longleftrightarrow>
     same_edges s0 s \<and> plist s p xs \<and> distinct xs \<and>
     (\<forall>x\<in>set xs. 0 < x \<and> x < length (nodes s0)) \<and> D \<inter> set xs = {} \<and>
     (\<forall>a. 0 < a \<and> a < length (nodes s0) \<longrightarrow> ec s a = c a - d a) \<and>
     (\<forall>a. 0 < a \<and> a < length (nodes s0) \<longrightarrow> (ec s a = 0 \<longleftrightarrow> a \<in> D \<or> a \<in> set xs))"

lemma wave_invD:
  assumes "wave_inv s0 c s D d p xs"
  shows "same_edges s0 s" "plist s p xs" "distinct xs"
    "\<forall>x\<in>set xs. 0 < x \<and> x < length (nodes s0)" "D \<inter> set xs = {}"
    "\<forall>a. 0 < a \<and> a < length (nodes s0) \<longrightarrow> ec s a = c a - d a"
    "\<forall>a. 0 < a \<and> a < length (nodes s0) \<longrightarrow> (ec s a = 0 \<longleftrightarrow> a \<in> D \<or> a \<in> set xs)"
  using assms unfolding wave_inv_def by blast+

lemma wave_edge:
  assumes inv: "wave_inv s0 c s D d p (p # ys)"
    and a: "0 < iedges s0 ! ei" "iedges s0 ! ei < length (nodes s0)"
  shows "\<exists>ys'. wave_inv s0 c (vp_edge p s ei) D (d(iedges s0 ! ei := d (iedges s0 ! ei) + 1)) p (p # ys')"
proof -
  let ?a = "iedges s0 ! ei"
  let ?s = "vp_edge p s ei"
  have se: "same_edges s0 s" and pl: "plist s p (p # ys)" and di: "distinct (p # ys)"
    and rg: "\<forall>x\<in>set (p # ys). 0 < x \<and> x < length (nodes s0)"
    and dj: "D \<inter> set (p # ys) = {}"
    and cn: "\<forall>a. 0 < a \<and> a < length (nodes s0) \<longrightarrow> ec s a = c a - d a"
    and zr: "\<forall>a. 0 < a \<and> a < length (nodes s0) \<longrightarrow> (ec s a = 0 \<longleftrightarrow> a \<in> D \<or> a \<in> set (p # ys))"
    using wave_invD[OF inv] by - assumption+
  have ie: "iedges s = iedges s0" and ln: "length (nodes s) = length (nodes s0)"
    using se by (simp_all add: same_edges_def)
  have al: "iedges s ! ei < length (nodes s)" using a ie ln by simp
  have p: "0 < p" "p < length (nodes s)" using rg ln by simp_all
  have ecp: "ec s p = 0" using zr p ln by simp
  have se': "same_edges s0 ?s" by (rule same_edges_trans[OF se vp_edge_same])
  have eca: "\<And>x. ec ?s x = (if x = ?a then ec s x - 1 else ec s x)"
    using vp_edge_ec[OF al, of p] by (simp add: ie)
  have cn': "\<forall>x. 0 < x \<and> x < length (nodes s0) \<longrightarrow>
       ec ?s x = c x - (d(?a := d ?a + 1)) x"
  proof (intro allI impI)
    fix x assume x: "0 < x \<and> x < length (nodes s0)"
    then have "ec s x = c x - d x" using cn by blast
    then show "ec ?s x = c x - (d(?a := d ?a + 1)) x"
      by (cases "x = ?a") (simp_all add: eca)
  qed
  have pp: "p \<noteq> 0 \<and> plist s (pn s p) ys" using plist_hd[OF pl] by simp
  show ?thesis
  proof (cases "ec s ?a = 1")
    case True
    then have nin: "?a \<notin> D" "?a \<notin> set (p # ys)" using zr a by auto
    have pnx: "\<And>x. pn ?s x = (if x = p then ?a else if x = ?a then pn s p else pn s x)"
      using vp_edge_pn[OF al p(2) ecp] True by (simp add: ie)
    have "\<forall>x\<in>set ys. pn ?s x = pn s x"
    proof
      fix x assume "x \<in> set ys"
      then have "x \<noteq> p" "x \<noteq> ?a" using di nin by auto
      then show "pn ?s x = pn s x" by (simp only: pnx if_False)
    qed
    with pp have "plist ?s (pn s p) ys"
      by (auto intro: plist_cong[of s])
    then have "plist ?s (pn ?s ?a) ys" using nin by (simp add: pnx)
    with a(1) have "plist ?s ?a (?a # ys)" by (intro plist.intros) simp_all
    then have "plist ?s (pn ?s p) (?a # ys)" by (simp add: pnx)
    with pp have pl': "plist ?s p (p # ?a # ys)" by (intro plist.intros) simp_all
    have di': "distinct (p # ?a # ys)" using di nin by auto
    have rg': "\<forall>x\<in>set (p # ?a # ys). 0 < x \<and> x < length (nodes s0)" using rg a by auto
    have dj': "D \<inter> set (p # ?a # ys) = {}" using dj nin by auto
    have zr': "\<forall>x. 0 < x \<and> x < length (nodes s0) \<longrightarrow>
        (ec ?s x = 0 \<longleftrightarrow> x \<in> D \<or> x \<in> set (p # ?a # ys))"
    proof (intro allI impI)
      fix x assume x: "0 < x \<and> x < length (nodes s0)"
      then have "ec s x = 0 \<longleftrightarrow> x \<in> D \<or> x \<in> set (p # ys)" using zr by blast
      then show "ec ?s x = 0 \<longleftrightarrow> x \<in> D \<or> x \<in> set (p # ?a # ys)"
        using True nin by (cases "x = ?a") (simp_all add: eca)
    qed
    have "wave_inv s0 c ?s D (d(?a := d ?a + 1)) p (p # ?a # ys)"
      unfolding wave_inv_def using se' pl' di' rg' dj' cn' zr' by (intro conjI)
    then show ?thesis by (rule exI)
  next
    case False
    have pnx: "\<And>x. pn ?s x = pn s x"
      using vp_edge_pn[OF al p(2) ecp] False by (simp add: ie)
    have pl': "plist ?s p (p # ys)" using pl by (rule plist_cong) (simp add: pnx)
    have zr': "\<forall>x. 0 < x \<and> x < length (nodes s0) \<longrightarrow>
        (ec ?s x = 0 \<longleftrightarrow> x \<in> D \<or> x \<in> set (p # ys))"
    proof (intro allI impI)
      fix x assume x: "0 < x \<and> x < length (nodes s0)"
      then have xz: "ec s x = 0 \<longleftrightarrow> x \<in> D \<or> x \<in> set (p # ys)" using zr by blast
      show "ec ?s x = 0 \<longleftrightarrow> x \<in> D \<or> x \<in> set (p # ys)"
      proof (cases "x = ?a")
        case True
        then have "ec ?s x = ec s x - 1" by (simp add: eca)
        moreover have "ec s x \<noteq> 1" using True False by simp
        ultimately have "ec ?s x = 0 \<longleftrightarrow> ec s x = 0" by arith
        then show ?thesis using xz by simp
      next
        case False
        then show ?thesis using xz by (simp add: eca)
      qed
    qed
    have "wave_inv s0 c ?s D (d(?a := d ?a + 1)) p (p # ys)"
      unfolding wave_inv_def using se' pl' di rg dj cn' zr' by (intro conjI)
    then show ?thesis by (rule exI)
  qed
qed

lemma wave_edges:
  assumes "wave_inv s0 c s D d p (p # ys)"
    and "\<forall>ei\<in>set es. 0 < iedges s0 ! ei \<and> iedges s0 ! ei < length (nodes s0)"
  shows "\<exists>ys'. wave_inv s0 c (foldl (vp_edge p) s es) D
           (\<lambda>a. d a + count_list (map (\<lambda>ei. iedges s0 ! ei) es) a) p (p # ys')"
  using assms
proof (induction es arbitrary: s d ys)
  case Nil
  then show ?case by auto
next
  case (Cons ei es)
  obtain ys1 where 1: "wave_inv s0 c (vp_edge p s ei) D (d(iedges s0 ! ei := d (iedges s0 ! ei) + 1)) p (p # ys1)"
    using wave_edge[OF Cons.prems(1)] Cons.prems(2) by auto
  obtain ys' where 2: "wave_inv s0 c (foldl (vp_edge p) (vp_edge p s ei) es) D
           (\<lambda>a. (d(iedges s0 ! ei := d (iedges s0 ! ei) + 1)) a + count_list (map (\<lambda>ei. iedges s0 ! ei) es) a) p (p # ys')"
    using Cons.IH[OF 1] Cons.prems(2) by auto
  have "(\<lambda>a. (d(iedges s0 ! ei := d (iedges s0 ! ei) + 1)) a + count_list (map (\<lambda>ei. iedges s0 ! ei) es) a)
      = (\<lambda>a. d a + count_list (map (\<lambda>ei. iedges s0 ! ei) (ei # es)) a)"
    by (rule ext) simp
  with 2 show ?case by auto
qed


lemma ie_end_mono:
  assumes "edges_ok s" "b < length (nodes s)"
  shows "a \<le> b \<Longrightarrow> ie_end (nodes s ! a) \<le> ie_end (nodes s ! b)"
  using assms(2)
proof (induction b)
  case 0
  then show ?case by simp
next
  case (Suc b)
  show ?case
  proof (cases "a = Suc b")
    case True
    then show ?thesis by simp
  next
    case False
    then have "ie_end (nodes s ! a) \<le> ie_end (nodes s ! b)"
      using Suc by simp
    moreover have "ie_end (nodes s ! b) \<le> ie_end (nodes s ! Suc b)"
      using assms(1) Suc.prems(2) unfolding edges_ok_def
      by (metis diff_Suc_1 zero_less_Suc)
    ultimately show ?thesis by simp
  qed
qed

lemma slice_in_range:
  assumes "edges_ok s" "b < length (nodes s)"
  shows "\<forall>ei\<in>set [ie_end (nodes s ! (b - 1))..<ie_end (nodes s ! b)].
           0 < iedges s ! ei \<and> iedges s ! ei < length (nodes s)"
proof -
  have "ie_end (nodes s ! b) \<le> ie_end (nodes s ! (length (nodes s) - 1))"
    using ie_end_mono[OF assms(1), of "length (nodes s) - 1" b] assms by simp
  then have "ie_end (nodes s ! b) \<le> nr_edges s"
    using assms(1) by (simp add: edges_ok_def)
  then show ?thesis
    using assms(1) by (auto simp add: edges_ok_def)
qed

lemma into_insert:
  assumes "finite D" "p \<notin> D"
  shows "into s (insert p D) a = count_list (slice s p) a + into s D a"
  using assms by (simp add: into_def)

lemma into_mono:
  assumes "finite D" "D' \<subseteq> D"
  shows "into s D' a \<le> into s D a"
  unfolding into_def by (rule sum_mono2[OF assms]) simp

lemma discharged_range: "discharged s c a \<Longrightarrow> 0 < a \<and> a < length (nodes s)"
  by (auto elim: discharged.cases)

lemma wave_outer:
  assumes eo: "edges_ok s0"
  shows "wave_inv s0 c s D (into s0 D) p xs \<Longrightarrow> finite D \<Longrightarrow>
         D \<subseteq> {1..<length (nodes s0)} \<Longrightarrow> \<forall>a\<in>D \<union> set xs. discharged s0 c a \<Longrightarrow>
         \<exists>s'. vp_wave p s = Some s' \<and> same_edges s0 s' \<and>
           (\<forall>a. 0 < a \<and> a < length (nodes s0) \<longrightarrow> (ec s' a = 0 \<longleftrightarrow> discharged s0 c a))"
proof (induction "card ({1..<length (nodes s0)} - D)" arbitrary: s D p xs rule: less_induct)
  case less
  note inv = wave_invD[OF less.prems(1)]
  show ?case
  proof (cases "p = 0")
    case True
    then have xs: "xs = []" using inv(2) plist_zero by simp
    have r: "vp_wave p s = Some s" using True by (subst vp_wave.simps) simp
    have "\<And>a. discharged s0 c a \<Longrightarrow> a \<in> D"
    proof -
      fix a show "discharged s0 c a \<Longrightarrow> a \<in> D"
      proof (induction rule: discharged.induct)
        case (1 a D')
        have ar: "0 < a" "a < length (nodes s0)" and le: "c a \<le> into s0 D' a"
          using 1 by blast+
        have "D' \<subseteq> D" using 1 by blast
        then have "into s0 D' a \<le> into s0 D a" by (rule into_mono[OF less.prems(2)])
        then have "c a - into s0 D a = 0" using le by simp
        then have "ec s a = 0" using inv(6) ar by simp
        then show ?case using inv(7) ar xs by simp
      qed
    qed
    then have "\<forall>a. 0 < a \<and> a < length (nodes s0) \<longrightarrow> (ec s a = 0 \<longleftrightarrow> discharged s0 c a)"
      using inv(7) xs less.prems(4) by auto
    then show ?thesis using r inv(1) by simp
  next
    case False
    then obtain ys where xs: "xs = p # ys" using plist_nonzero[OF inv(2)] by auto
    have pr: "0 < p" "p < length (nodes s0)" using inv(4) xs by simp_all
    have pD: "p \<notin> D" using inv(5) xs by auto
    have ie: "iedges s = iedges s0" "\<And>n. ie_end (nodes s ! n) = ie_end (nodes s0 ! n)"
      using inv(1) by (simp_all add: same_edges_def)
    define es where "es = [ie_end (nodes s0 ! (p - 1))..<ie_end (nodes s0 ! p)]"
    define s1 where "s1 = foldl (vp_edge p) s es"
    have rng: "\<forall>ei\<in>set es. 0 < iedges s0 ! ei \<and> iedges s0 ! ei < length (nodes s0)"
      unfolding es_def by (rule slice_in_range[OF eo pr(2)])
    obtain ys' where w1: "wave_inv s0 c s1 D
           (\<lambda>a. into s0 D a + count_list (map (\<lambda>ei. iedges s0 ! ei) es) a) p (p # ys')"
      using wave_edges[OF less.prems(1)[unfolded xs] rng] by (auto simp add: s1_def)
    have sl: "map (\<lambda>ei. iedges s0 ! ei) es = slice s0 p" by (simp add: slice_def es_def)
    have d': "(\<lambda>a. into s0 D a + count_list (map (\<lambda>ei. iedges s0 ! ei) es) a) = into s0 (insert p D)"
      by (rule ext) (simp add: sl into_insert[OF less.prems(2) pD])
    note i1 = wave_invD[OF w1[unfolded d']]
    have step: "vp_wave p s = vp_wave (pn s1 p) s1"
      using False by (subst vp_wave.simps) (simp add: Let_def ie s1_def es_def)
    have pl: "plist s1 (pn s1 p) ys'" using plist_hd[OF i1(2)] by simp
    have w2: "wave_inv s0 c s1 (insert p D) (into s0 (insert p D)) (pn s1 p) ys'"
      unfolding wave_inv_def
    proof (intro conjI)
      show "same_edges s0 s1" by (rule i1(1))
      show "plist s1 (pn s1 p) ys'" by (rule pl)
      show "distinct ys'" using i1(3) by simp
      show "\<forall>x\<in>set ys'. 0 < x \<and> x < length (nodes s0)" using i1(4) by simp
      show "insert p D \<inter> set ys' = {}" using i1(3,5) by auto
      show "\<forall>a. 0 < a \<and> a < length (nodes s0) \<longrightarrow> ec s1 a = c a - into s0 (insert p D) a"
        by (rule i1(6))
      show "\<forall>a. 0 < a \<and> a < length (nodes s0) \<longrightarrow>
          (ec s1 a = 0 \<longleftrightarrow> a \<in> insert p D \<or> a \<in> set ys')"
        using i1(7) by auto
    qed
    have fin: "finite (insert p D)" using less.prems(2) by simp
    have sub: "insert p D \<subseteq> {1..<length (nodes s0)}" using less.prems(3) pr by auto
    have dp: "\<forall>a\<in>insert p D. discharged s0 c a" using less.prems(4) xs by auto
    have dis: "\<forall>a\<in>insert p D \<union> set ys'. discharged s0 c a"
    proof
      fix a assume a: "a \<in> insert p D \<union> set ys'"
      show "discharged s0 c a"
      proof (cases "a \<in> insert p D")
        case True
        then show ?thesis using dp by blast
      next
        case False
        then have ay: "a \<in> set ys'" using a by simp
        then have ar: "0 < a" "a < length (nodes s0)" using i1(4) by simp_all
        then have "ec s1 a = 0" using i1(7) ay by simp
        then have "c a \<le> into s0 (insert p D) a" using i1(6) ar by simp
        with ar fin dp show ?thesis by (auto intro: discharged.intros[of a s0 "insert p D"])
      qed
    qed
    have "p \<in> {1..<length (nodes s0)} - D" "p \<notin> {1..<length (nodes s0)} - insert p D"
      using pr pD by auto
    then have "{1..<length (nodes s0)} - insert p D \<subset> {1..<length (nodes s0)} - D"
      by blast
    then have m: "card ({1..<length (nodes s0)} - insert p D) < card ({1..<length (nodes s0)} - D)"
      by (intro psubset_card_mono) simp_all
    show ?thesis
      using less.hyps[OF m w2 fin sub dis] step by simp
  qed
qed


text \<open>Two global states that differ at most in \<open>e_cnt\<close> and \<open>p_next\<close> of their nodes.\<close>

definition same_but_counts :: "checker \<Rightarrow> checker \<Rightarrow> bool" where
  "same_but_counts s s' \<longleftrightarrow>
     same_edges s s' \<and> st_data s' = st_data s \<and> nr_words s' = nr_words s \<and>
     err_msg s' = err_msg s \<and> reported s' = reported s \<and> out s' = out s \<and>
     nr_trans s' = nr_trans s \<and> hash_tbl s' = hash_tbl s \<and>
     (\<forall>n. prev (nodes s' ! n) = prev (nodes s ! n) \<and> h_next (nodes s' ! n) = h_next (nodes s ! n))"

lemma same_but_counts_refl [simp]: "same_but_counts s s"
  by (simp add: same_but_counts_def)

lemma same_but_counts_trans:
  "same_but_counts s s' \<Longrightarrow> same_but_counts s' s'' \<Longrightarrow> same_but_counts s s''"
  by (auto simp add: same_but_counts_def intro: same_edges_trans)

lemma same_but_counts_upd:
  assumes "\<And>nd. ie_end (f nd) = ie_end nd" "\<And>nd. prev (f nd) = prev nd"
    "\<And>nd. h_next (f nd) = h_next nd"
  shows "same_but_counts s (upd_node i f s)"
  using assms by (simp add: same_but_counts_def same_edges_def upd_node_nth)

lemma state_words_same: "same_but_counts s s' \<Longrightarrow> state_words s' n = state_words s n"
  by (simp add: same_but_counts_def state_words_def)

subsection \<open>The initial numbers\<close>

lemma reset_counts:
  "k \<le> length (nodes s) \<Longrightarrow>
   same_but_counts s (foldl (\<lambda>s ni. upd_node ni (\<lambda>nd. nd\<lparr>e_cnt := 0\<rparr>) s) s [1..<k]) \<and>
   (\<forall>a. ec (foldl (\<lambda>s ni. upd_node ni (\<lambda>nd. nd\<lparr>e_cnt := 0\<rparr>) s) s [1..<k]) a
        = (if 0 < a \<and> a < k then 0 else ec s a))"
proof (induction k)
  case 0
  then show ?case by simp
next
  case (Suc k)
  let ?s = "foldl (\<lambda>s ni. upd_node ni (\<lambda>nd. nd\<lparr>e_cnt := 0\<rparr>) s) s [1..<k]"
  have ih: "same_but_counts s ?s" "\<forall>a. ec ?s a = (if 0 < a \<and> a < k then 0 else ec s a)"
    using Suc by simp_all
  show ?case
  proof (cases "k = 0")
    case True
    then show ?thesis by simp
  next
    case False
    then have u: "[1..<Suc k] = [1..<k] @ [k]" by simp
    have ln: "length (nodes ?s) = length (nodes s)"
      using ih(1) by (simp add: same_but_counts_def same_edges_def)
    have 1: "same_but_counts s (upd_node k (\<lambda>nd. nd\<lparr>e_cnt := 0\<rparr>) ?s)"
      by (rule same_but_counts_trans[OF ih(1)]) (rule same_but_counts_upd, simp_all)
    have 2: "\<forall>a. ec (upd_node k (\<lambda>nd. nd\<lparr>e_cnt := 0\<rparr>) ?s) a
        = (if 0 < a \<and> a < Suc k then 0 else ec s a)"
      using ih(2) False Suc.prems ln by (auto simp add: upd_node_nth less_Suc_eq)
    show ?thesis unfolding u using 1 2 by simp
  qed
qed

lemma count_edges:
  assumes "\<forall>ei. ei < k \<longrightarrow> iedges s ! ei < length (nodes s)" "k \<le> length (iedges s)"
  shows "same_but_counts s
           (foldl (\<lambda>s ei. upd_node (iedges s ! ei) (\<lambda>nd. nd\<lparr>e_cnt := e_cnt nd + 1\<rparr>) s) s [0..<k]) \<and>
         (\<forall>a. ec (foldl (\<lambda>s ei. upd_node (iedges s ! ei) (\<lambda>nd. nd\<lparr>e_cnt := e_cnt nd + 1\<rparr>) s) s [0..<k]) a
              = ec s a + count_list (take k (iedges s)) a)"
  using assms
proof (induction k)
  case 0
  then show ?case by simp
next
  case (Suc k)
  let ?s = "foldl (\<lambda>s ei. upd_node (iedges s ! ei) (\<lambda>nd. nd\<lparr>e_cnt := e_cnt nd + 1\<rparr>) s) s [0..<k]"
  have ih: "same_but_counts s ?s" "\<forall>a. ec ?s a = ec s a + count_list (take k (iedges s)) a"
    using Suc by simp_all
  have ie: "iedges ?s = iedges s" "length (nodes ?s) = length (nodes s)"
    using ih(1) by (simp_all add: same_but_counts_def same_edges_def)
  have tk: "take (Suc k) (iedges s) = take k (iedges s) @ [iedges s ! k]"
    using Suc.prems(2) by (simp add: take_Suc_conv_app_nth)
  have kr: "iedges s ! k < length (nodes s)" using Suc.prems(1) by simp
  have 1: "same_but_counts s (upd_node (iedges s ! k) (\<lambda>nd. nd\<lparr>e_cnt := e_cnt nd + 1\<rparr>) ?s)"
    by (rule same_but_counts_trans[OF ih(1)]) (rule same_but_counts_upd, simp_all)
  have 2: "\<forall>a. ec (upd_node (iedges s ! k) (\<lambda>nd. nd\<lparr>e_cnt := e_cnt nd + 1\<rparr>) ?s) a
        = ec s a + count_list (take (Suc k) (iedges s)) a"
    using ih(2) kr ie by (auto simp add: upd_node_nth tk)
  show ?case unfolding upt_Suc_append[OF le0] foldl_append foldl_Cons foldl_Nil ie
    using 1 2 by blast
qed

lemma flag_edges:
  assumes "\<forall>ei. ei < k \<longrightarrow> iedges s ! ei < length (nodes s)" "k \<le> length (iedges s)"
  shows "same_but_counts s
           (foldl (\<lambda>s ei. upd_node (iedges s ! ei) (\<lambda>nd. nd\<lparr>e_cnt := 1\<rparr>) s) s [0..<k]) \<and>
         (\<forall>a. ec (foldl (\<lambda>s ei. upd_node (iedges s ! ei) (\<lambda>nd. nd\<lparr>e_cnt := 1\<rparr>) s) s [0..<k]) a
              = (if a \<in> set (take k (iedges s)) then 1 else ec s a))"
  using assms
proof (induction k)
  case 0
  then show ?case by simp
next
  case (Suc k)
  let ?s = "foldl (\<lambda>s ei. upd_node (iedges s ! ei) (\<lambda>nd. nd\<lparr>e_cnt := 1\<rparr>) s) s [0..<k]"
  have ih: "same_but_counts s ?s"
    "\<forall>a. ec ?s a = (if a \<in> set (take k (iedges s)) then 1 else ec s a)"
    using Suc by simp_all
  have ie: "iedges ?s = iedges s" "length (nodes ?s) = length (nodes s)"
    using ih(1) by (simp_all add: same_but_counts_def same_edges_def)
  have tk: "take (Suc k) (iedges s) = take k (iedges s) @ [iedges s ! k]"
    using Suc.prems(2) by (simp add: take_Suc_conv_app_nth)
  have kr: "iedges s ! k < length (nodes s)" using Suc.prems(1) by simp
  have 1: "same_but_counts s (upd_node (iedges s ! k) (\<lambda>nd. nd\<lparr>e_cnt := 1\<rparr>) ?s)"
    by (rule same_but_counts_trans[OF ih(1)]) (rule same_but_counts_upd, simp_all)
  have 2: "\<forall>a. ec (upd_node (iedges s ! k) (\<lambda>nd. nd\<lparr>e_cnt := 1\<rparr>) ?s) a
        = (if a \<in> set (take (Suc k) (iedges s)) then 1 else ec s a)"
    using ih(2) kr ie by (auto simp add: upd_node_nth tk)
  show ?case unfolding upt_Suc_append[OF le0] foldl_append foldl_Cons foldl_Nil ie
    using 1 2 by blast
qed

text \<open>The numbers after the first loops of \<open>verify_progress\<close>.\<close>

lemma vp_init_counts:
  assumes "edges_ok s"
  shows "same_but_counts s (vp_init round s)"
    and "0 < a \<Longrightarrow> a < length (nodes s) \<Longrightarrow>
         ec (vp_init round s) a =
           (if round = 1 then count_list (iedges s) a
            else if a \<in> set (iedges s) then 1 else 0)"
proof -
  let ?s1 = "foldl (\<lambda>s ni. upd_node ni (\<lambda>nd. nd\<lparr>e_cnt := 0\<rparr>) s) s [1..<length (nodes s)]"
  have r: "same_but_counts s ?s1"
    "\<forall>a. ec ?s1 a = (if 0 < a \<and> a < length (nodes s) then 0 else ec s a)"
    using reset_counts[of "length (nodes s)" s] by simp_all
  have ie: "iedges ?s1 = iedges s" "length (nodes ?s1) = length (nodes s)"
    "nr_edges ?s1 = nr_edges s"
    using r(1) by (simp_all add: same_but_counts_def same_edges_def)
  have rg: "\<forall>ei. ei < nr_edges ?s1 \<longrightarrow> iedges ?s1 ! ei < length (nodes ?s1)"
    and le: "nr_edges ?s1 \<le> length (iedges ?s1)" and tk: "take (nr_edges s) (iedges s) = iedges s"
    using assms ie by (simp_all add: edges_ok_def)
  show "same_but_counts s (vp_init round s)"
    using count_edges[OF rg le] flag_edges[OF rg le] r(1)
    by (auto simp add: vp_init_def Let_def intro: same_but_counts_trans)
  assume a: "0 < a" "a < length (nodes s)"
  show "ec (vp_init round s) a =
           (if round = 1 then count_list (iedges s) a
            else if a \<in> set (iedges s) then 1 else 0)"
    using count_edges[OF rg le] flag_edges[OF rg le] r(2) a ie tk
    by (simp add: vp_init_def Let_def)
qed

subsection \<open>The progress states\<close>

text \<open>
  What the progress predicate of a round says about the stored state \<open>n\<close>, and that it
  sets no error message there. A predicate that is not compiled in holds everywhere.
\<close>

definition progress_at :: "(u32 list \<Rightarrow> bool \<times> string option) option \<Rightarrow> checker \<Rightarrow> nat \<Rightarrow> bool" where
  "progress_at pred s n = (case pred of None \<Rightarrow> True | Some f \<Rightarrow> fst (f (state_words s n)))"

definition quiet_at :: "(u32 list \<Rightarrow> bool \<times> string option) option \<Rightarrow> checker \<Rightarrow> nat \<Rightarrow> bool" where
  "quiet_at pred s n = (case pred of None \<Rightarrow> True | Some f \<Rightarrow> snd (f (state_words s n)) = None)"

lemma vp_progress_counts:
  assumes "same_but_counts s0 s" "err_msg s0 = None" "distinct nis"
    "\<forall>n\<in>set nis. n < length (nodes s0) \<and> quiet_at pred s0 n"
  shows "\<exists>s'. vp_progress dl pred msg nis s = Some (False, s') \<and> same_but_counts s0 s' \<and>
           (\<forall>a. ec s' a =
              (if a \<in> set nis then
                 (if ec s a = 0 \<and> \<not> dl then 0 else if progress_at pred s0 a then 0
                  else if ec s a = 0 then 1 else ec s a)
               else ec s a))"
  using assms
proof (induction nis arbitrary: s)
  case Nil
  then show ?case by simp
next
  case (Cons ni nis)
  have ln: "length (nodes s) = length (nodes s0)" and er: "err_msg s = None"
    using Cons.prems(1,2) by (simp_all add: same_but_counts_def same_edges_def)
  have nr: "ni < length (nodes s)" and q: "quiet_at pred s0 ni" and nn: "ni \<notin> set nis"
    using Cons.prems(3,4) ln by simp_all
  define s1 where "s1 = (if dl \<and> ec s ni = 0 then upd_node ni (\<lambda>nd. nd\<lparr>e_cnt := 1\<rparr>) s else s)"
  have s1: "same_but_counts s0 s1"
  proof (cases "dl \<and> ec s ni = 0")
    case True
    have "same_but_counts s (upd_node ni (\<lambda>nd. nd\<lparr>e_cnt := 1\<rparr>) s)"
      by (rule same_but_counts_upd) simp_all
    then show ?thesis
      using True same_but_counts_trans[OF Cons.prems(1)] by (simp add: s1_def)
  next
    case False
    then show ?thesis using Cons.prems(1) by (auto simp add: s1_def)
  qed
  have e1: "\<forall>a. ec s1 a = (if a = ni \<and> dl \<and> ec s ni = 0 then 1 else ec s a)"
    unfolding s1_def using nr by (simp add: upd_node_nth)
  show ?case
  proof (cases "ec s1 ni = 0")
    case True
    then have z: "ec s ni = 0" "\<not> dl" using e1 by (auto split: if_splits)
    obtain s' where s': "vp_progress dl pred msg nis s1 = Some (False, s')"
      "same_but_counts s0 s'"
      "\<forall>a. ec s' a =
              (if a \<in> set nis then
                 (if ec s1 a = 0 \<and> \<not> dl then 0 else if progress_at pred s0 a then 0
                  else if ec s1 a = 0 then 1 else ec s1 a)
               else ec s1 a)"
      using Cons.IH[OF s1 Cons.prems(2)] Cons.prems(3,4) by auto
    have "vp_progress dl pred msg (ni # nis) s = Some (False, s')"
      using True s'(1) by (simp add: s1_def[symmetric] Let_def)
    moreover have "\<forall>a. ec s' a =
              (if a \<in> set (ni # nis) then
                 (if ec s a = 0 \<and> \<not> dl then 0 else if progress_at pred s0 a then 0
                  else if ec s a = 0 then 1 else ec s a)
               else ec s a)"
      using s'(3) e1 z nn by auto
    ultimately show ?thesis using s'(2) by blast
  next
    case False
    define s2 where "s2 = use_state ni s1"
    have w: "cur_state s2 = state_words s0 ni"
      using s1 by (simp add: s2_def cur_state_def use_state_def state_words_def same_but_counts_def)
    define b where "b = progress_at pred s0 ni"
    have be: "(case pred of None \<Rightarrow> (True, None) | Some f \<Rightarrow> f (cur_state s2)) = (b, None)"
      using q by (auto simp add: b_def w progress_at_def quiet_at_def prod_eq_iff split: option.splits)
    define s3 where "s3 = (if b then upd_node ni (\<lambda>nd. nd\<lparr>e_cnt := 0\<rparr>) s2 else s2)"
    have s12: "same_but_counts s1 s2"
      by (simp add: s2_def same_but_counts_def same_edges_def use_state_def)
    have s3: "same_but_counts s0 s3"
    proof (cases b)
      case True
      have "same_but_counts s2 (upd_node ni (\<lambda>nd. nd\<lparr>e_cnt := 0\<rparr>) s2)"
        by (rule same_but_counts_upd) simp_all
      then show ?thesis
        using True same_but_counts_trans[OF same_but_counts_trans[OF s1 s12]] by (simp add: s3_def)
    next
      case False
      then show ?thesis using same_but_counts_trans[OF s1 s12] by (simp add: s3_def)
    qed
    have e3: "\<forall>a. ec s3 a = (if a = ni \<and> b then 0 else ec s1 a)"
      unfolding s3_def using nr ln s1
      by (simp add: upd_node_nth s2_def use_state_def same_but_counts_def same_edges_def)
    have er3: "err_msg s3 = None"
      using s3 Cons.prems(2) by (simp add: same_but_counts_def)
    have er2: "err_msg s2 = None"
      using same_but_counts_trans[OF s1 s12] Cons.prems(2) by (simp add: same_but_counts_def)
    obtain s' where s': "vp_progress dl pred msg nis s3 = Some (False, s')"
      "same_but_counts s0 s'"
      "\<forall>a. ec s' a =
              (if a \<in> set nis then
                 (if ec s3 a = 0 \<and> \<not> dl then 0 else if progress_at pred s0 a then 0
                  else if ec s3 a = 0 then 1 else ec s3 a)
               else ec s3 a)"
      using Cons.IH[OF s3 Cons.prems(2)] Cons.prems(3,4) by auto
    have "vp_progress dl pred msg (ni # nis) s = Some (False, s')"
      using False s'(1) er2
      by (cases b; simp add: s1_def[symmetric] Let_def s2_def[symmetric] be set_err_def s3_def)
    moreover have "\<forall>a. ec s' a =
              (if a \<in> set (ni # nis) then
                 (if ec s a = 0 \<and> \<not> dl then 0 else if progress_at pred s0 a then 0
                  else if ec s a = 0 then 1 else ec s a)
               else ec s a)"
      using s'(3) e3 e1 False nn b_def by auto
    ultimately show ?thesis using s'(2) by blast
  qed
qed

subsection \<open>The initial progress search list\<close>

lemma vp_list_upto:
  "k \<le> length (nodes s) \<Longrightarrow>
   \<exists>p s'. foldl (\<lambda>(p_list, s) ni.
              if e_cnt (nodes s ! ni) = 0
              then (ni, upd_node ni (\<lambda>nd. nd\<lparr>p_next := p_list\<rparr>) s) else (p_list, s))
            (0, s) [1..<k] = (p, s') \<and>
     same_but_counts s s' \<and> (\<forall>a. ec s' a = ec s a) \<and>
     plist s' p (rev (filter (\<lambda>n. ec s n = 0) [1..<k]))"
proof (induction k)
  case 0
  then show ?case by (simp add: plist.intros)
next
  case (Suc k)
  let ?F = "\<lambda>(p_list, s) ni.
              if e_cnt (nodes s ! ni) = 0
              then (ni, upd_node ni (\<lambda>nd. nd\<lparr>p_next := p_list\<rparr>) s) else (p_list, s)"
  show ?case
  proof (cases "k = 0")
    case True
    then show ?thesis by (simp add: plist.intros)
  next
    case False
    obtain p s' where ih: "foldl ?F (0, s) [1..<k] = (p, s')" "same_but_counts s s'"
      "\<forall>a. ec s' a = ec s a" "plist s' p (rev (filter (\<lambda>n. ec s n = 0) [1..<k]))"
      using Suc by auto
    have u: "[1..<Suc k] = [1..<k] @ [k]" using False by simp
    have ln: "length (nodes s') = length (nodes s)"
      using ih(2) by (simp add: same_but_counts_def same_edges_def)
    show ?thesis
    proof (cases "ec s k = 0")
      case True
      let ?s = "upd_node k (\<lambda>nd. nd\<lparr>p_next := p\<rparr>) s'"
      have 1: "foldl ?F (0, s) [1..<Suc k] = (k, ?s)"
        unfolding u foldl_append ih(1) using True ih(3) by simp
      have 2: "same_but_counts s ?s"
        by (rule same_but_counts_trans[OF ih(2)]) (rule same_but_counts_upd, simp_all)
      have 3: "\<forall>a. ec ?s a = ec s a"
        using ih(3) by (simp add: upd_node_nth)
      have "plist ?s p (rev (filter (\<lambda>n. ec s n = 0) [1..<k]))"
        by (rule plist_cong[OF ih(4)]) (auto simp add: upd_node_nth)
      moreover have "pn ?s k = p" using Suc.prems ln by (simp add: upd_node_nth)
      ultimately have 4: "plist ?s k (rev (filter (\<lambda>n. ec s n = 0) [1..<Suc k]))"
        unfolding u using True False by (auto intro: plist.intros)
      show ?thesis using 1 2 3 4 by blast
    next
      case False
      have 1: "foldl ?F (0, s) [1..<Suc k] = (p, s')"
        unfolding u foldl_append ih(1) using False ih(3) by simp
      have 4: "plist s' p (rev (filter (\<lambda>n. ec s n = 0) [1..<Suc k]))"
        unfolding u using False ih(4) by simp
      show ?thesis using 1 ih(2,3) 4 by blast
    qed
  qed
qed

subsection \<open>From the numbers before the propagation to the numbers after it\<close>

lemma discharged_transfer:
  assumes "discharged s c a" "same_edges s s'"
    "\<forall>n. 0 < n \<and> n < length (nodes s) \<longrightarrow> c' n = c n"
  shows "discharged s' c' a"
  using assms
proof (induction rule: discharged.induct)
  case (1 a D)
  have d: "\<forall>b\<in>D. discharged s' c' b" using 1 by blast
  have "into s' D a = into s D a"
    using same_edges_slice[OF 1(6)] by (simp add: into_def)
  then have le: "c' a \<le> into s' D a" using 1 by simp
  have rg: "0 < a" "a < length (nodes s')"
    using 1 by (simp_all add: same_edges_def)
  show ?case using discharged.intros[OF rg 1(3) d le] .
qed

lemma discharged_zero:
  assumes "0 < a" "a < length (nodes s)" "c a = 0"
  shows "discharged s c a"
proof -
  have "\<forall>b\<in>{}. discharged s c b" by simp
  moreover have "c a \<le> into s {} a" using assms by simp
  ultimately show ?thesis using discharged.intros[OF assms(1,2), of "{}" c] by blast
qed

lemma edges_ok_same: "edges_ok s \<Longrightarrow> same_edges s s' \<Longrightarrow> edges_ok s'"
  by (simp add: edges_ok_def same_edges_def)

lemma wave_from_counts:
  assumes eo: "edges_ok s1" and vl: "vp_list s1 = (p, s2)"
  shows "\<exists>s3. vp_wave p s2 = Some s3 \<and> same_edges s1 s3 \<and>
           (\<forall>a. 0 < a \<and> a < length (nodes s1) \<longrightarrow> (ec s3 a = 0 \<longleftrightarrow> discharged s1 (ec s1) a))"
proof -
  define xs where "xs = rev (filter (\<lambda>n. ec s1 n = 0) [1..<length (nodes s1)])"
  have l: "same_but_counts s1 s2" "\<forall>a. ec s2 a = ec s1 a" "plist s2 p xs"
    using vp_list_upto[of "length (nodes s1)" s1] vl by (auto simp add: vp_list_def xs_def)
  have se: "same_edges s1 s2" using l(1) by (simp add: same_but_counts_def)
  have inv: "wave_inv s1 (ec s1) s2 {} (into s1 {}) p xs"
    unfolding wave_inv_def using se l(2,3) by (auto simp add: xs_def into_def)
  have d: "\<forall>a\<in>{} \<union> set xs. discharged s1 (ec s1) a"
    by (auto simp add: xs_def intro: discharged_zero)
  show ?thesis using wave_outer[OF eo inv _ _ d] by simp
qed

text \<open>
  The numbers before the propagation: 0 for a node that counts as a progress state, and
  otherwise 1 in round 0 and the number of the output edges in round 1 (1 for a node
  with no output edges that does not count as a progress state).
\<close>

definition out_degree :: "checker \<Rightarrow> nat \<Rightarrow> nat" where
  "out_degree s a = count_list (iedges s) a"

definition round_pred :: "model \<Rightarrow> nat \<Rightarrow> (u32 list \<Rightarrow> bool \<times> string option) option" where
  "round_pred m round = (if round = 0 then is_may_progress m else is_must_progress m)"

definition round_dl_not :: "config \<Rightarrow> nat \<Rightarrow> bool" where
  "round_dl_not cfg round = (if round = 0 then dl_not_may cfg else dl_not_must cfg)"

definition goal :: "config \<Rightarrow> model \<Rightarrow> nat \<Rightarrow> checker \<Rightarrow> nat \<Rightarrow> bool" where
  "goal cfg m round s a \<longleftrightarrow>
     progress_at (round_pred m round) s a \<or> (out_degree s a = 0 \<and> \<not> round_dl_not cfg round)"

definition obligation :: "config \<Rightarrow> model \<Rightarrow> nat \<Rightarrow> checker \<Rightarrow> nat \<Rightarrow> nat" where
  "obligation cfg m round s a =
     (if goal cfg m round s a then 0
      else if round = 1 \<and> out_degree s a \<noteq> 0 then out_degree s a else 1)"

lemma vp_label_discharged:
  assumes eo: "edges_ok s" and er: "err_msg s = None" and rd: "round = 0 \<or> round = 1"
    and qu: "\<forall>n\<in>set [1..<length (nodes s)]. quiet_at (round_pred m round) s n"
  shows "\<exists>s'. vp_label cfg m round s = Some (False, s') \<and> same_edges s s' \<and>
           (\<forall>a. 0 < a \<and> a < length (nodes s) \<longrightarrow>
              (ec s' a = 0 \<longleftrightarrow> discharged s (obligation cfg m round s) a))"
proof -
  define si where "si = vp_init round s"
  have i: "same_but_counts s si"
    "\<forall>a. 0 < a \<and> a < length (nodes s) \<longrightarrow>
       ec si a = (if round = 1 then count_list (iedges s) a
                  else if a \<in> set (iedges s) then 1 else 0)"
    using vp_init_counts[OF eo] by (simp_all add: si_def)
  have ln: "length (nodes si) = length (nodes s)"
    using i(1) by (simp add: same_but_counts_def same_edges_def)
  have q: "\<forall>n\<in>set [1..<length (nodes s)]. n < length (nodes s) \<and> quiet_at (round_pred m round) s n"
    using qu by simp
  obtain s1 where m1: "vp_progress (round_dl_not cfg round) (round_pred m round)
        (if round = 0 then ''may_progress modelling error'' else ''must_progress modelling error'')
        [1..<length (nodes s)] si = Some (False, s1)"
    and s1: "same_but_counts s s1"
    and e1: "\<forall>a. ec s1 a =
              (if a \<in> set [1..<length (nodes s)] then
                 (if ec si a = 0 \<and> \<not> round_dl_not cfg round then 0
                  else if progress_at (round_pred m round) s a then 0
                  else if ec si a = 0 then 1 else ec si a)
               else ec si a)"
    using vp_progress_counts[OF i(1) er distinct_upt q] by blast
  have mk: "vp_mark cfg m round si = Some (False, s1)"
    using m1 rd by (auto simp add: vp_mark_def ln round_pred_def round_dl_not_def)
  have se: "same_edges s s1" and ln1: "length (nodes s1) = length (nodes s)"
    using s1 by (simp_all add: same_but_counts_def same_edges_def)
  have c: "\<forall>n. 0 < n \<and> n < length (nodes s) \<longrightarrow> ec s1 n = obligation cfg m round s n"
  proof (intro allI impI)
    fix n assume n: "0 < n \<and> n < length (nodes s)"
    have z: "ec si n = 0 \<longleftrightarrow> out_degree s n = 0"
      using i(2) n by (auto simp add: out_degree_def count_list_0_iff)
    show "ec s1 n = obligation cfg m round s n"
    proof (cases "round = 1")
      case True
      then show ?thesis using e1 i(2) n z
        by (auto simp add: obligation_def goal_def out_degree_def)
    next
      case False
      then show ?thesis using e1 i(2) n z rd
        by (auto simp add: obligation_def goal_def)
    qed
  qed
  obtain p s2 where vl: "vp_list s1 = (p, s2)" by (cases "vp_list s1")
  obtain s3 where w: "vp_wave p s2 = Some s3" "same_edges s1 s3"
    and e3: "\<forall>a. 0 < a \<and> a < length (nodes s1) \<longrightarrow> (ec s3 a = 0 \<longleftrightarrow> discharged s1 (ec s1) a)"
    using wave_from_counts[OF edges_ok_same[OF eo se] vl] by blast
  have se1: "same_edges s1 s" using se by (simp add: same_edges_def)
  have "discharged s1 (ec s1) a \<longleftrightarrow> discharged s (obligation cfg m round s) a" for a
  proof
    assume "discharged s1 (ec s1) a"
    then show "discharged s (obligation cfg m round s) a"
      using discharged_transfer[of s1 "ec s1" a s "obligation cfg m round s"] se1 c ln1 by simp
  next
    assume "discharged s (obligation cfg m round s) a"
    then show "discharged s1 (ec s1) a"
      using discharged_transfer[of s "obligation cfg m round s" a s1 "ec s1"] se c by simp
  qed
  then have "\<forall>a. 0 < a \<and> a < length (nodes s) \<longrightarrow>
              (ec s3 a = 0 \<longleftrightarrow> discharged s (obligation cfg m round s) a)"
    using e3 ln1 by simp
  moreover have "vp_label cfg m round s = Some (False, s3)"
    using mk vl w(1) by (simp add: vp_label_def si_def[symmetric])
  moreover have "same_edges s s3" using same_edges_trans[OF se w(2)] .
  ultimately show ?thesis by blast
qed

subsection \<open>The slices of \<open>iedges\<close> and the output edges of a node\<close>

lemma take_extend:
  assumes "a \<le> b" "b \<le> length xs"
  shows "take a xs @ map (\<lambda>i. xs ! i) [a..<b] = take b xs"
proof (rule nth_equalityI)
  show "length (take a xs @ map (\<lambda>i. xs ! i) [a..<b]) = length (take b xs)"
    using assms by simp
next
  fix i assume "i < length (take a xs @ map (\<lambda>i. xs ! i) [a..<b])"
  then have "i < b" using assms by simp
  then show "(take a xs @ map (\<lambda>i. xs ! i) [a..<b]) ! i = take b xs ! i"
    using assms by (cases "i < a") (simp_all add: nth_append)
qed

lemma concat_slices:
  assumes eo: "edges_ok s"
  shows "k < length (nodes s) \<Longrightarrow>
         concat (map (slice s) [1..<Suc k]) = take (ie_end (nodes s ! k)) (iedges s)"
proof (induction k)
  case 0
  then show ?case using eo by (simp add: edges_ok_def)
next
  case (Suc k)
  have ih: "concat (map (slice s) [1..<Suc k]) = take (ie_end (nodes s ! k)) (iedges s)"
    using Suc by simp
  have le: "ie_end (nodes s ! k) \<le> ie_end (nodes s ! Suc k)"
    using ie_end_mono[OF eo Suc.prems, of k] by simp
  have "ie_end (nodes s ! Suc k) \<le> ie_end (nodes s ! (length (nodes s) - 1))"
    using ie_end_mono[OF eo, of "length (nodes s) - 1" "Suc k"] Suc.prems by simp
  then have up: "ie_end (nodes s ! Suc k) \<le> length (iedges s)"
    using eo by (simp add: edges_ok_def)
  have "concat (map (slice s) [1..<Suc (Suc k)]) =
        take (ie_end (nodes s ! k)) (iedges s) @ slice s (Suc k)"
    using ih by simp
  also have "\<dots> = take (ie_end (nodes s ! Suc k)) (iedges s)"
    using take_extend[OF le up] by (simp add: slice_def)
  finally show ?case .
qed

lemma slices_all:
  assumes eo: "edges_ok s"
  shows "concat (map (slice s) [1..<length (nodes s)]) = iedges s"
proof -
  have n: "0 < length (nodes s)" using eo by (simp add: edges_ok_def)
  then have "[1..<length (nodes s)] = [1..<Suc (length (nodes s) - 1)]" by simp
  then have "concat (map (slice s) [1..<length (nodes s)]) =
             take (ie_end (nodes s ! (length (nodes s) - 1))) (iedges s)"
    using concat_slices[OF eo, of "length (nodes s) - 1"] n by simp
  then show ?thesis using eo by (simp add: edges_ok_def)
qed

lemma count_list_concat:
  "count_list (concat xss) a = sum_list (map (\<lambda>xs. count_list xs a) xss)"
  by (induction xss) simp_all

lemma out_degree_into:
  assumes eo: "edges_ok s"
  shows "out_degree s a = into s {1..<length (nodes s)} a"
proof -
  have "out_degree s a = count_list (concat (map (slice s) [1..<length (nodes s)])) a"
    using slices_all[OF eo] by (simp add: out_degree_def)
  also have "\<dots> = sum_list (map (\<lambda>b. count_list (slice s b) a) [1..<length (nodes s)])"
    by (simp add: count_list_concat comp_def)
  also have "\<dots> = into s {1..<length (nodes s)} a"
    unfolding into_def by (simp add: sum_list_distinct_conv_sum_set)
  finally show ?thesis .
qed

lemma out_degree_edge:
  assumes eo: "edges_ok s"
  shows "out_degree s a \<noteq> 0 \<longleftrightarrow> (\<exists>b. edge s a b)"
proof -
  have "out_degree s a \<noteq> 0 \<longleftrightarrow> a \<in> set (concat (map (slice s) [1..<length (nodes s)]))"
    using slices_all[OF eo] by (simp add: out_degree_def count_list_0_iff)
  also have "\<dots> \<longleftrightarrow> (\<exists>b. edge s a b)"
    by (force simp add: edge_def Suc_le_eq)
  finally show ?thesis .
qed

lemma edge_source:
  assumes "edges_ok s" "edge s a b"
  shows "0 < a \<and> a < length (nodes s)"
  using slice_in_range[OF assms(1), of b] assms(2) by (auto simp add: edge_def slice_def)

lemma edge_count: "edge s a b \<longleftrightarrow> 0 < b \<and> b < length (nodes s) \<and> count_list (slice s b) a \<noteq> 0"
  by (simp add: edge_def count_list_0_iff)

lemma into_single [simp]: "into s {b} a = count_list (slice s b) a"
  by (simp add: into_def)

subsection \<open>Obligation 1: some output edge\<close>

lemma discharged_exists:
  assumes eo: "edges_ok s" and c1: "\<forall>a. c a \<le> 1"
  shows "discharged s c a \<longleftrightarrow>
         0 < a \<and> a < length (nodes s) \<and>
         (\<exists>t. (edge s)\<^sup>*\<^sup>* a t \<and> 0 < t \<and> t < length (nodes s) \<and> c t = 0)"
proof
  assume "discharged s c a"
  then show "0 < a \<and> a < length (nodes s) \<and>
         (\<exists>t. (edge s)\<^sup>*\<^sup>* a t \<and> 0 < t \<and> t < length (nodes s) \<and> c t = 0)"
  proof (induction rule: discharged.induct)
    case (1 a D)
    have rg: "0 < a" "a < length (nodes s)" and fin: "finite D"
      and ih: "\<forall>b\<in>D. 0 < b \<and> b < length (nodes s) \<and>
                (\<exists>t. (edge s)\<^sup>*\<^sup>* b t \<and> 0 < t \<and> t < length (nodes s) \<and> c t = 0)"
      and le: "c a \<le> into s D a"
      using 1 by blast+
    show ?case
    proof (cases "c a = 0")
      case True
      then show ?thesis using rg by blast
    next
      case False
      then have "into s D a \<noteq> 0" using le by simp
      then obtain b where b: "b \<in> D" "count_list (slice s b) a \<noteq> 0"
        unfolding into_def using fin by auto
      then have "edge s a b" using ih by (simp add: edge_count)
      moreover obtain t where "(edge s)\<^sup>*\<^sup>* b t" "0 < t" "t < length (nodes s)" "c t = 0"
        using ih b(1) by blast
      ultimately show ?thesis using rg by (meson converse_rtranclp_into_rtranclp)
    qed
  qed
next
  assume a: "0 < a \<and> a < length (nodes s) \<and>
         (\<exists>t. (edge s)\<^sup>*\<^sup>* a t \<and> 0 < t \<and> t < length (nodes s) \<and> c t = 0)"
  then obtain t where t: "(edge s)\<^sup>*\<^sup>* a t" "0 < t" "t < length (nodes s)" "c t = 0"
    by blast
  from t(1) show "discharged s c a"
  proof (induction rule: converse_rtranclp_induct)
    case base
    then show ?case using t by (simp add: discharged_zero)
  next
    case (step x y)
    have rg: "0 < x" "x < length (nodes s)" using edge_source[OF eo step(1)] by simp_all
    have d: "\<forall>b\<in>{y}. discharged s c b" using step by simp
    have "1 \<le> count_list (slice s y) x" using step(1) by (simp add: edge_count)
    then have le: "c x \<le> into s {y} x" using c1 le_trans by fastforce
    show ?case using discharged.intros[OF rg _ d le] by simp
  qed
qed

subsection \<open>Obligation out-degree: every output edge\<close>

text \<open>
  \<open>inevitable s g a\<close>: \<open>a\<close> is a goal, or it has an output edge and each of its output
  edges leads to a node from which a goal is inevitable.
\<close>

inductive inevitable :: "checker \<Rightarrow> (nat \<Rightarrow> bool) \<Rightarrow> nat \<Rightarrow> bool" for s g where
  "g a \<Longrightarrow> inevitable s g a"
| "edge s a b0 \<Longrightarrow> (\<And>b. edge s a b \<Longrightarrow> inevitable s g b) \<Longrightarrow> inevitable s g a"

lemma into_split:
  assumes "finite U" "D \<subseteq> U"
  shows "into s U a = into s (U - D) a + into s D a"
  unfolding into_def using sum.subset_diff[OF assms(2,1)] by simp

lemma discharged_forall:
  assumes eo: "edges_ok s"
    and c: "\<forall>a. 0 < a \<and> a < length (nodes s) \<longrightarrow>
              c a = (if g a then 0 else if out_degree s a \<noteq> 0 then out_degree s a else 1)"
  shows "discharged s c a \<longleftrightarrow> 0 < a \<and> a < length (nodes s) \<and> inevitable s g a"
proof
  let ?U = "{1..<length (nodes s)}"
  assume "discharged s c a"
  then show "0 < a \<and> a < length (nodes s) \<and> inevitable s g a"
  proof (induction rule: discharged.induct)
    case (1 a D)
    have rg: "0 < a" "a < length (nodes s)" and fin: "finite D"
      and ih: "\<forall>b\<in>D. 0 < b \<and> b < length (nodes s) \<and> inevitable s g b"
      and le: "c a \<le> into s D a"
      using 1 by blast+
    show ?case
    proof (cases "g a")
      case True
      then show ?thesis using rg by (simp add: inevitable.intros)
    next
      case False
      have sub: "D \<subseteq> ?U" using ih by auto
      have sp: "out_degree s a = into s (?U - D) a + into s D a"
        using out_degree_into[OF eo, of a] into_split[OF _ sub, of s a] by simp
      have ca: "c a = (if out_degree s a \<noteq> 0 then out_degree s a else 1)"
        using c rg False by simp
      have od: "out_degree s a \<noteq> 0" using ca le sp by (auto split: if_splits)
      then have "into s (?U - D) a = 0" using ca le sp by simp
      then have z: "\<forall>b\<in>?U - D. count_list (slice s b) a = 0"
        unfolding into_def by simp
      have "inevitable s g b" if "edge s a b" for b
      proof -
        have bu: "b \<in> ?U" and bc: "count_list (slice s b) a \<noteq> 0"
          using that by (auto simp add: edge_count)
        have "b \<in> D"
        proof (rule ccontr)
          assume "b \<notin> D"
          then have bd: "b \<in> ?U - D" using bu by blast
          show False using bspec[OF z bd] bc by simp
        qed
        then show ?thesis using ih by blast
      qed
      moreover obtain b0 where "edge s a b0" using od out_degree_edge[OF eo] by blast
      ultimately show ?thesis using rg by (blast intro: inevitable.intros(2))
    qed
  qed
next
  let ?U = "{1..<length (nodes s)}"
  assume "0 < a \<and> a < length (nodes s) \<and> inevitable s g a"
  then have "inevitable s g a" "0 < a" "a < length (nodes s)" by simp_all
  then show "discharged s c a"
  proof (induction rule: inevitable.induct)
    case (1 a)
    then show ?case using c by (simp add: discharged_zero)
  next
    case (2 a b0)
    show ?case
    proof (cases "g a")
      case True
      then show ?thesis using c 2 by (simp add: discharged_zero)
    next
      case False
      define D where "D = {b. edge s a b}"
      have sub: "D \<subseteq> ?U" by (auto simp add: D_def edge_def)
      then have fin: "finite D" using finite_subset by blast
      have d: "\<forall>b\<in>D. discharged s c b"
        using 2(3) by (simp add: D_def edge_def)
      have "\<forall>b\<in>?U - D. count_list (slice s b) a = 0"
        by (auto simp add: D_def edge_count)
      then have "into s (?U - D) a = 0" unfolding into_def by simp
      then have sp: "out_degree s a = into s D a"
        using out_degree_into[OF eo, of a] into_split[OF _ sub, of s a] by simp
      have "out_degree s a \<noteq> 0" using out_degree_edge[OF eo] 2(1) by blast
      then have "c a = out_degree s a" using c 2(4,5) False by simp
      then have le: "c a \<le> into s D a" using sp by simp
      show ?thesis using discharged.intros[OF 2(4,5) fin d le] .
    qed
  qed
qed

subsection \<open>Paths\<close>

text \<open>
  The paths of the graph that cannot be extended: infinite sequences of nodes, each
  step along an output edge, that stay in a node with no output edge for ever.
\<close>

definition full_path :: "checker \<Rightarrow> (nat \<Rightarrow> nat) \<Rightarrow> bool" where
  "full_path s p \<longleftrightarrow>
     (\<forall>i. edge s (p i) (p (Suc i)) \<or> ((\<forall>b. \<not> edge s (p i) b) \<and> p (Suc i) = p i))"

lemma inevitable_paths:
  "inevitable s g a \<longleftrightarrow> (\<forall>p. p 0 = a \<and> full_path s p \<longrightarrow> (\<exists>i. g (p i)))"
proof
  assume "inevitable s g a"
  then show "\<forall>p. p 0 = a \<and> full_path s p \<longrightarrow> (\<exists>i. g (p i))"
  proof (induction rule: inevitable.induct)
    case (1 a)
    then show ?case by blast
  next
    case (2 a b0)
    show ?case
    proof (intro allI impI)
      fix p assume p: "p 0 = a \<and> full_path s p"
      then have e: "edge s a (p (Suc 0))"
        using 2(1) unfolding full_path_def by metis
      have "full_path s (\<lambda>i. p (Suc i))"
        using p by (simp add: full_path_def)
      then obtain i where "g (p (Suc i))"
        using spec[OF 2(3)[OF e], of "\<lambda>i. p (Suc i)"] by auto
      then show "\<exists>i. g (p i)" by blast
    qed
  qed
next
  assume all: "\<forall>p. p 0 = a \<and> full_path s p \<longrightarrow> (\<exists>i. g (p i))"
  show "inevitable s g a"
  proof (rule ccontr)
    assume na: "\<not> inevitable s g a"
    define nxt where "nxt x = (if \<forall>b. \<not> edge s x b then x
                              else SOME b. edge s x b \<and> \<not> inevitable s g b)" for x
    define p where "p i = (nxt ^^ i) a" for i
    have st: "(\<forall>b. \<not> edge s x b) \<or> (\<exists>b. edge s x b \<and> \<not> inevitable s g b)"
      if "\<not> inevitable s g x" for x
      using that inevitable.intros(2)[of s x _ g] by blast
    have nx: "\<not> inevitable s g (nxt x) \<and>
              (edge s x (nxt x) \<or> ((\<forall>b. \<not> edge s x b) \<and> nxt x = x))"
      if x: "\<not> inevitable s g x" for x
    proof (cases "\<forall>b. \<not> edge s x b")
      case True
      then show ?thesis using x by (simp add: nxt_def)
    next
      case False
      then have "\<exists>b. edge s x b \<and> \<not> inevitable s g b" using st[OF x] by blast
      then have "edge s x (SOME b. edge s x b \<and> \<not> inevitable s g b) \<and>
                 \<not> inevitable s g (SOME b. edge s x b \<and> \<not> inevitable s g b)"
        by (rule someI_ex)
      moreover have "nxt x = (SOME b. edge s x b \<and> \<not> inevitable s g b)"
        unfolding nxt_def by (rule if_not_P[OF False])
      ultimately show ?thesis by metis
    qed
    have ni: "\<not> inevitable s g (p i)" for i
    proof (induction i)
      case 0
      then show ?case using na by (simp add: p_def)
    next
      case (Suc i)
      then show ?case using nx[of "p i"] by (simp add: p_def)
    qed
    have "full_path s p"
      unfolding full_path_def using nx[OF ni] by (simp add: p_def)
    moreover have "p 0 = a" by (simp add: p_def)
    ultimately obtain i where "g (p i)" using all by blast
    then show False using ni[of i] by (simp add: inevitable.intros(1))
  qed
qed

subsection \<open>The two rounds\<close>

text \<open>
  The progress predicate sets no error message in any stored state, so that the loop
  over the nodes does not return from \<open>verify_progress\<close>.
\<close>

definition quiet :: "(u32 list \<Rightarrow> bool \<times> string option) option \<Rightarrow> checker \<Rightarrow> bool" where
  "quiet pred s \<longleftrightarrow> (\<forall>n\<in>set [1..<length (nodes s)]. quiet_at pred s n)"

text \<open>
  A node counts as a progress state if the predicate of the round holds in it, or if it
  has no output edge and the flag \<open>dl_not_may\<close> or \<open>dl_not_must\<close> of the round is not set.
\<close>

definition counts_as_progress ::
    "bool \<Rightarrow> (u32 list \<Rightarrow> bool \<times> string option) option \<Rightarrow> checker \<Rightarrow> nat \<Rightarrow> bool" where
  "counts_as_progress dl_not pred s t \<longleftrightarrow>
     progress_at pred s t \<or> (\<not> dl_not \<and> (\<forall>b. \<not> edge s t b))"

lemma edges_ok_code [code]:
  "edges_ok s \<longleftrightarrow>
     0 < length (nodes s) \<and> length (iedges s) = nr_edges s \<and> ie_end (nodes s ! 0) = 0 \<and>
     ie_end (nodes s ! (length (nodes s) - 1)) = nr_edges s \<and>
     list_all (\<lambda>b. ie_end (nodes s ! (b - 1)) \<le> ie_end (nodes s ! b)) [1..<length (nodes s)] \<and>
     list_all (\<lambda>ei. 0 < iedges s ! ei \<and> iedges s ! ei < length (nodes s)) [0..<nr_edges s]"
  by (auto simp add: edges_ok_def list_all_iff)

lemma goal_alt:
  assumes "edges_ok s"
  shows "goal cfg m round s = counts_as_progress (round_dl_not cfg round) (round_pred m round) s"
proof -
  have "out_degree s a = 0 \<longleftrightarrow> (\<forall>b. \<not> edge s a b)" for a
    using out_degree_edge[OF assms, of a] by blast
  then show ?thesis by (auto simp add: goal_def counts_as_progress_def fun_eq_iff)
qed

lemma reach_range:
  "(edge s)\<^sup>*\<^sup>* a t \<Longrightarrow> 0 < a \<and> a < length (nodes s) \<Longrightarrow> 0 < t \<and> t < length (nodes s)"
  by (induction rule: rtranclp_induct) (simp_all add: edge_def)

text \<open>A second set of progress predicates for the graph with the lasso.\<close>

definition lasso_may :: model where
  "lasso_may = lasso_model\<lparr>is_may_progress := Some (\<lambda>ws. (ws = [0], None))\<rparr>"

lemma lasso_edges_ok:
  "edges_ok lasso_edges \<and> err_msg lasso_edges = None \<and>
   quiet (is_may_progress lasso_may) lasso_edges \<and>
   quiet (is_must_progress lasso_model) lasso_edges"
proof -
  have "let s = lasso_edges in
          edges_ok s \<and> err_msg s = None \<and> quiet (is_may_progress lasso_may) s \<and>
          quiet (is_must_progress lasso_model) s"
    by code_simp
  then show ?thesis by (simp add: Let_def)
qed

text \<open>
  Claim C1. Let \<open>iedges\<close> and the \<open>ie_end\<close> of the nodes be a structure of incoming edges
  (\<open>edges_ok\<close>), let \<open>err_msg\<close> be clear, and let \<open>is_may_progress\<close> set no error message
  in a stored state. Then round 0 of \<open>verify_progress\<close> gets through the backward
  propagation, and there the number \<open>e_cnt\<close> of a node \<open>ni\<close> with
  \<open>1 \<le> ni < nodes.size()\<close> is 0 if and only if from \<open>ni\<close>, along the edges that \<open>iedges\<close>
  records, a node can be reached that counts as a may-progress state: one where
  \<open>is_may_progress\<close> holds, or one with no output edge unless \<open>dl_not_may\<close> is set.
\<close>

theorem may_progress_reachable:
  assumes "edges_ok s" "err_msg s = None" "quiet (is_may_progress m) s"
  shows "\<exists>s'. vp_label cfg m 0 s = Some (False, s') \<and>
           (\<forall>ni. 0 < ni \<and> ni < length (nodes s) \<longrightarrow>
              (e_cnt (nodes s' ! ni) = 0 \<longleftrightarrow>
               (\<exists>t. (edge s)\<^sup>*\<^sup>* ni t \<and>
                    counts_as_progress (dl_not_may cfg) (is_may_progress m) s t)))"
proof -
  have q: "\<forall>n\<in>set [1..<length (nodes s)]. quiet_at (round_pred m 0) s n"
    using assms(3) by (simp add: quiet_def round_pred_def)
  obtain s' where l: "vp_label cfg m 0 s = Some (False, s')"
    and e: "\<forall>a. 0 < a \<and> a < length (nodes s) \<longrightarrow>
              (ec s' a = 0 \<longleftrightarrow> discharged s (obligation cfg m 0 s) a)"
    using vp_label_discharged[OF assms(1,2) _ q, of cfg] by auto
  have c1: "\<forall>a. obligation cfg m 0 s a \<le> 1" by (simp add: obligation_def)
  have g: "obligation cfg m 0 s t = 0 \<longleftrightarrow>
           counts_as_progress (dl_not_may cfg) (is_may_progress m) s t" for t
    using goal_alt[OF assms(1), of cfg m 0]
    by (simp add: obligation_def round_pred_def round_dl_not_def)
  have "ec s' ni = 0 \<longleftrightarrow>
        (\<exists>t. (edge s)\<^sup>*\<^sup>* ni t \<and> counts_as_progress (dl_not_may cfg) (is_may_progress m) s t)"
    if ni: "0 < ni \<and> ni < length (nodes s)" for ni
  proof -
    have "ec s' ni = 0 \<longleftrightarrow>
          (\<exists>t. (edge s)\<^sup>*\<^sup>* ni t \<and> 0 < t \<and> t < length (nodes s) \<and> obligation cfg m 0 s t = 0)"
      using e ni discharged_exists[OF assms(1) c1, of ni] by simp
    also have "\<dots> \<longleftrightarrow>
          (\<exists>t. (edge s)\<^sup>*\<^sup>* ni t \<and> counts_as_progress (dl_not_may cfg) (is_may_progress m) s t)"
      using reach_range[OF _ ni] g by blast
    finally show ?thesis .
  qed
  then show ?thesis using l by blast
qed

theorem may_progress_reachable_witness:
  "edges_ok lasso_edges \<and> err_msg lasso_edges = None \<and>
   quiet (is_may_progress lasso_may) lasso_edges \<and>
   (\<exists>s'. vp_label toy_cfg lasso_may 0 lasso_edges = Some (False, s') \<and>
      (\<forall>ni. 0 < ni \<and> ni < length (nodes lasso_edges) \<longrightarrow>
         (e_cnt (nodes s' ! ni) = 0 \<longleftrightarrow>
          (\<exists>t. (edge lasso_edges)\<^sup>*\<^sup>* ni t \<and>
               counts_as_progress (dl_not_may toy_cfg) (is_may_progress lasso_may)
                 lasso_edges t))))"
  using may_progress_reachable[of lasso_edges lasso_may toy_cfg] lasso_edges_ok by simp

text \<open>
  Claim C2. Under the same conditions, for \<open>is_must_progress\<close>, round 1 of
  \<open>verify_progress\<close> gets through the backward propagation, and there the number \<open>e_cnt\<close>
  of a node \<open>ni\<close> with \<open>1 \<le> ni < nodes.size()\<close> is 0 if and only if every path from \<open>ni\<close>
  that cannot be extended (it is infinite, or it ends in a node with no output edge,
  where it stays) comes to a node that counts as a must-progress state: one where
  \<open>is_must_progress\<close> holds, or one with no output edge unless \<open>dl_not_must\<close> is set.
\<close>

theorem must_progress_inevitable:
  assumes "edges_ok s" "err_msg s = None" "quiet (is_must_progress m) s"
  shows "\<exists>s'. vp_label cfg m 1 s = Some (False, s') \<and>
           (\<forall>ni. 0 < ni \<and> ni < length (nodes s) \<longrightarrow>
              (e_cnt (nodes s' ! ni) = 0 \<longleftrightarrow>
               (\<forall>p. p 0 = ni \<and> full_path s p \<longrightarrow>
                    (\<exists>i. counts_as_progress (dl_not_must cfg) (is_must_progress m) s (p i)))))"
proof -
  have q: "\<forall>n\<in>set [1..<length (nodes s)]. quiet_at (round_pred m 1) s n"
    using assms(3) by (simp add: quiet_def round_pred_def)
  obtain s' where l: "vp_label cfg m 1 s = Some (False, s')"
    and e: "\<forall>a. 0 < a \<and> a < length (nodes s) \<longrightarrow>
              (ec s' a = 0 \<longleftrightarrow> discharged s (obligation cfg m 1 s) a)"
    using vp_label_discharged[OF assms(1,2) _ q, of cfg] by auto
  have c: "\<forall>a. 0 < a \<and> a < length (nodes s) \<longrightarrow>
             obligation cfg m 1 s a =
               (if goal cfg m 1 s a then 0
                else if out_degree s a \<noteq> 0 then out_degree s a else 1)"
    by (simp add: obligation_def)
  have g: "goal cfg m 1 s = counts_as_progress (dl_not_must cfg) (is_must_progress m) s"
    using goal_alt[OF assms(1), of cfg m 1] by (simp add: round_pred_def round_dl_not_def)
  have "ec s' ni = 0 \<longleftrightarrow>
        (\<forall>p. p 0 = ni \<and> full_path s p \<longrightarrow>
             (\<exists>i. counts_as_progress (dl_not_must cfg) (is_must_progress m) s (p i)))"
    if ni: "0 < ni \<and> ni < length (nodes s)" for ni
    using e ni discharged_forall[OF assms(1) c, of ni]
      inevitable_paths[of s "goal cfg m 1 s" ni] unfolding g by simp
  then show ?thesis using l by blast
qed

theorem must_progress_inevitable_witness:
  "edges_ok lasso_edges \<and> err_msg lasso_edges = None \<and>
   quiet (is_must_progress lasso_model) lasso_edges \<and>
   (\<exists>s'. vp_label toy_cfg lasso_model 1 lasso_edges = Some (False, s') \<and>
      (\<forall>ni. 0 < ni \<and> ni < length (nodes lasso_edges) \<longrightarrow>
         (e_cnt (nodes s' ! ni) = 0 \<longleftrightarrow>
          (\<forall>p. p 0 = ni \<and> full_path lasso_edges p \<longrightarrow>
               (\<exists>i. counts_as_progress (dl_not_must toy_cfg) (is_must_progress lasso_model)
                      lasso_edges (p i))))))"
  using must_progress_inevitable[of lasso_edges lasso_model toy_cfg] lasso_edges_ok by simp

section \<open>Assignment to a state variable\<close>

lemma mask_alt: "(push_bit b 1 - 1 :: u32) = mask b"
  by (simp add: mask_eq_exp_minus_1 push_bit_eq_mult)

lemma bits_below:
  fixes val :: u32
  assumes "unat val < 2 ^ b"
  shows "bit val n \<Longrightarrow> n < b"
proof -
  have v: "take_bit b val = val"
    using assms by (metis take_bit_nat_eq_self_iff unsigned_take_bit_eq unsigned_word_eqI)
  show "bit val n \<Longrightarrow> n < b"
    by (metis v bit_take_bit_iff)
qed

lemma drop_push:
  fixes val :: u32
  assumes "unat val < 2 ^ b" "sh + b \<le> 32"
  shows "drop_bit sh (push_bit sh val) = val"
proof -
  have "\<And>n. bit val n \<Longrightarrow> sh + n < 32"
    using bits_below[OF assms(1)] assms(2) by fastforce
  then show ?thesis
    by (auto intro!: bit_word_eqI simp add: bit_simps)
qed

lemma field_read:
  fixes w val :: u32
  assumes "unat val < 2 ^ b"
  shows "drop_bit sh (((w AND NOT (push_bit sh (mask b))) OR push_bit sh val)
           AND push_bit sh (mask b)) = drop_bit sh (push_bit sh val)"
  using bits_below[OF assms]
  by (auto intro!: bit_word_eqI simp add: bit_simps)

text \<open>
  The range check of \<open>operator =\<close> looks at \<open>val << shift\<close>, whose bits at and above
  \<open>32 - shift\<close> are already lost: it sees exactly the low \<open>32 - shift\<close> bits of \<open>val\<close>.
\<close>

lemma range_check_iff:
  fixes val :: u32
  shows "(push_bit sh val AND NOT (push_bit sh (mask b)) = 0)
           \<longleftrightarrow> unat (take_bit (32 - sh) val) < 2 ^ b"
proof
  assume a: "unat (take_bit (32 - sh) val) < 2 ^ b"
  have "\<And>n. bit val n \<Longrightarrow> n < 32 - sh \<Longrightarrow> n < b"
    using bits_below[OF a] by (simp add: bit_simps)
  then show "push_bit sh val AND NOT (push_bit sh (mask b)) = 0"
    by (auto intro!: bit_word_eqI simp add: bit_simps)
next
  assume z: "push_bit sh val AND NOT (push_bit sh (mask b)) = 0"
  have "\<And>n. bit (take_bit (32 - sh) val) n \<Longrightarrow> n < b"
  proof (rule ccontr)
    fix n assume b: "bit (take_bit (32 - sh) val) n" and nb: "\<not> n < b"
    then have "bit (push_bit sh val AND NOT (push_bit sh (mask b))) (sh + n)"
      by (auto simp add: bit_simps)
    with z show False by simp
  qed
  then have "take_bit b (take_bit (32 - sh) val) = take_bit (32 - sh) val"
    by (auto intro!: bit_word_eqI simp add: bit_simps)
  then show "unat (take_bit (32 - sh) val) < 2 ^ b"
    by (metis unsigned_take_bit_eq take_bit_nat_less_exp)
qed

text \<open>
  A handle that the constructor returns for \<open>b\<close> bits has a \<open>b\<close>-bit field inside the
  word; it returns one only for fewer than 32 bits.
\<close>

lemma new_state_var_field:
  assumes "new_state_var b s = Inr (Some v, s')" "tot_bits s \<le> 32"
  shows "sv_mask v = push_bit (sv_shift v) (mask b) \<and> sv_shift v + b \<le> 32 \<and> b < 32"
  using assms
  by (auto simp add: new_state_var_def Let_def mask_eq_exp_minus_1 split: if_splits)

text \<open>
  The part of the range invariant that the code keeps: a value below \<open>2 ^ b\<close> is
  stored without an error and read back unchanged, at every shift.
\<close>

lemma sv_assign_in_range:
  assumes "sv_mask v = push_bit (sv_shift v) (mask b)" "sv_shift v + b \<le> 32"
    and "unat val < 2 ^ b"
    and "state_nr s * nr_words s + sv_word v < length (st_data s)"
  shows "sv_read v (sv_assign chk v val s) = val \<and> err_msg (sv_assign chk v val s) = err_msg s"
  using assms field_read[OF assms(3), of "sv_shift v"] drop_push[OF assms(3,2)]
    range_check_iff[of "sv_shift v" val b] bits_below[OF assms(3)]
  by (auto simp add: sv_assign_def sv_read_def Let_def take_bit_word_eq_self
      intro!: bit_word_eqI simp add: bit_simps)

text \<open>With the sanity checks on, a write is signalled exactly when the shifted value shows it.\<close>

lemma sv_assign_signalled_iff:
  assumes "sv_mask v = push_bit (sv_shift v) (mask b)" "err_msg s = None"
  shows "err_msg (sv_assign True v val s) \<noteq> None
           \<longleftrightarrow> \<not> unat (take_bit (32 - sv_shift v) val) < 2 ^ b"
  using assms range_check_iff[of "sv_shift v" val b]
  by (simp add: sv_assign_def Let_def)

text \<open>
  Claim C8. The claim says that, with the sanity checks compiled in, every assignment of
  a value \<open>v \<ge> 2 ^ b\<close> to a variable of \<open>b\<close> bits sets the error message, whatever the
  shift of the variable. The code does not do so: the fourth eight-bit variable of
  bank.cc (\<open>y\<close>) lies at shift 24, and assigning 256 to it shifts the offending bit out of
  the word before the check. No error is set, and the variable then reads 0.
\<close>

theorem assign_out_of_range_not_signalled:
  "\<exists>y s. declare4 = Inr (Some y, s) \<and> sv_shift y = 24 \<and> sv_mask y = push_bit 24 (mask 8) \<and>
     (256 :: u32) \<ge> 2 ^ 8 \<and>
     err_msg (sv_assign True y 256 (s\<lparr>st_data := [0, 0], state_nr := 1\<rparr>)) = None \<and>
     sv_read y (sv_assign True y 256 (s\<lparr>st_data := [0, 0], state_nr := 1\<rparr>)) = 0"
  by (simp add: declare4_eq sv_assign_def sv_read_def initial_checker_def Let_def mask_eq_exp_minus_1)

end
